theory Spec2Isabelle
  imports Main "HOL-Library.Monad_Syntax" "HOL-Library.Multiset"
begin

section \<open>The dataflow graph model read by the matcher\<close>

text \<open>
  Modelled from the spec: the graph classes (\<open>Graph\<close>, \<open>Block\<close>, \<open>Node\<close>, \<open>Value\<close>) are
  declared outside \<open>subgraph_matcher.cpp\<close>; the matcher only reads them through accessors.
  Objects are identified by reference, so a graph is a store: a \<open>Node*\<close>, \<open>Value*\<close> or
  \<open>Block*\<close> is an address, and each accessor of the source is a field of the record found
  at that address.

  \<^item> \<open>n->kind()\<close>, \<open>n->inputs()\<close>, \<open>n->outputs()\<close>, \<open>n->owningBlock()\<close>, \<open>n->blocks()\<close>
    are the fields of \<open>Node\<close>;
  \<^item> \<open>v->node()\<close> (the defining node) and \<open>v->uses()\<close> are the fields of \<open>Value\<close>;
  \<^item> \<open>b->nodes()\<close> is the sequence a range-for loop walks, and \<open>*(b->nodes().end())\<close>,
    the node the end iterator of that sequence points at, is the block's exit marker
    \<open>return_node\<close>; it is not an element of the sequence;
  \<^item> \<open>g.block()\<close> is the root block and \<open>g.nodes()\<close> abbreviates \<open>g.block()->nodes()\<close>.
\<close>

type_synonym node_ref = nat
type_synonym value_ref = nat
type_synonym block_ref = nat

datatype NodeKind = prim_Param | prim_Return | Operator nat

record Node =
  kind :: NodeKind
  inputs :: "value_ref list"
  outputs :: "value_ref list"
  owningBlock :: block_ref
  blocks :: "block_ref list"

record Value =
  node :: node_ref
  uses :: "(node_ref \<times> nat) list"

record Block =
  nodes :: "node_ref list"
  return_node :: node_ref

record Graph =
  nodeAt :: "node_ref \<Rightarrow> Node"
  valueAt :: "value_ref \<Rightarrow> Value"
  blockAt :: "block_ref \<Rightarrow> Block"
  block :: block_ref

section \<open>The matcher\<close>

text \<open>The private members \<open>nodes_map_\<close>, \<open>values_map_\<close> and \<open>anchor_\<close> of
  \<open>class SubgraphMatcher\<close> (an identifier cannot end in an underscore here, so the
  member prefix \<open>m_\<close> replaces it); the two graph references are passed to every function
  explicitly.\<close>

record SubgraphMatcher =
  m_nodes_map :: "node_ref \<rightharpoonup> node_ref"
  m_values_map :: "value_ref \<rightharpoonup> value_ref"
  m_anchor :: node_ref

text \<open>\<open>struct Match\<close>: what \<open>findPatternMatches\<close> pushes for a successful anchor.\<close>

record Match =
  anchor :: node_ref
  nodes_map :: "node_ref \<rightharpoonup> node_ref"
  values_map :: "value_ref \<rightharpoonup> value_ref"

datatype error = AssertionFailure

subsection \<open>patternGraphIsValid\<close>

text \<open>The loop over \<open>pattern.nodes()\<close>: \<open>False\<close> when it leaves the function through
  \<open>return false\<close>, \<open>True\<close> when it runs to its end.\<close>

primrec single_block_loop :: "Graph \<Rightarrow> node_ref list \<Rightarrow> bool" where
  "single_block_loop pattern [] = True"
| "single_block_loop pattern (n # ns) =
     (if blocks (nodeAt pattern n) \<noteq> [] then False else single_block_loop pattern ns)"

definition patternGraphIsValid :: "Graph \<Rightarrow> bool" where
  "patternGraphIsValid pattern =
     (if \<not> single_block_loop pattern (nodes (blockAt pattern (block pattern))) then False
      else let bottom_node = return_node (blockAt pattern (block pattern)) in
        if length (inputs (nodeAt pattern bottom_node)) \<noteq> 1 then False
        else True)"

subsection \<open>matchValues and matchNodes\<close>

text \<open>
  \<open>matchValues\<close> and \<open>matchNodes\<close> call each other, and nothing in the source bounds the
  recursion, so the two functions and the two \<open>for\<close> loops of \<open>matchNodes\<close> are one
  partial function in the option monad: \<open>None\<close> is a call that never returns. The first
  argument says where in the source the computation stands: at the entry of
  \<open>matchValues(v1, v2)\<close>, at the entry of \<open>matchNodes(n1, n2)\<close>, or at the head of the
  loop over the outputs or over the inputs of \<open>n1\<close> with loop counter \<open>i\<close>. The result is
  the returned \<open>bool\<close> and the matcher's members after the call.
\<close>

datatype call =
  MatchValues value_ref value_ref
| MatchNodes node_ref node_ref
| ForOutputs node_ref node_ref nat
| ForInputs node_ref node_ref nat

partial_function (option) matcher ::
  "Graph \<Rightarrow> Graph \<Rightarrow> call \<Rightarrow> SubgraphMatcher \<Rightarrow> (bool \<times> SubgraphMatcher) option" where
  "matcher P G c m =
    (case c of
       MatchValues v1 v2 \<Rightarrow>
         if v1 \<in> dom (m_values_map m) then Some (m_values_map m v1 = Some v2, m)
         else if length (uses (valueAt P v1)) \<noteq> length (uses (valueAt G v2)) \<and>
                 node (valueAt G v2) \<noteq> m_anchor m \<and>
                 kind (nodeAt P (node (valueAt P v1))) \<noteq> prim_Param
         then Some (False, m)
         else matcher P G (MatchNodes (node (valueAt P v1)) (node (valueAt G v2)))
                (m\<lparr>m_values_map := (m_values_map m)(v1 \<mapsto> v2)\<rparr>)
     | MatchNodes n1 n2 \<Rightarrow>
         if n1 \<in> dom (m_nodes_map m) then Some (m_nodes_map m n1 = Some n2, m)
         else if kind (nodeAt P n1) = prim_Param then Some (True, m)
         else if owningBlock (nodeAt G n2) \<noteq> owningBlock (nodeAt G (m_anchor m))
         then Some (False, m)
         else if kind (nodeAt P n1) \<noteq> kind (nodeAt G n2) \<or>
                 length (outputs (nodeAt P n1)) \<noteq> length (outputs (nodeAt G n2)) \<or>
                 length (inputs (nodeAt P n1)) \<noteq> length (inputs (nodeAt G n2))
         then Some (False, m)
         else matcher P G (ForOutputs n1 n2 0) (m\<lparr>m_nodes_map := (m_nodes_map m)(n1 \<mapsto> n2)\<rparr>)
     | ForOutputs n1 n2 i \<Rightarrow>
         if i < length (outputs (nodeAt P n1))
         then do {
           r \<leftarrow> matcher P G (MatchValues (outputs (nodeAt P n1) ! i) (outputs (nodeAt G n2) ! i)) m;
           if \<not> fst r then Some (False, snd r)
           else matcher P G (ForOutputs n1 n2 (i + 1)) (snd r) }
         else matcher P G (ForInputs n1 n2 0) m
     | ForInputs n1 n2 i \<Rightarrow>
         if i < length (inputs (nodeAt P n1))
         then do {
           r \<leftarrow> matcher P G (MatchValues (inputs (nodeAt P n1) ! i) (inputs (nodeAt G n2) ! i)) m;
           if \<not> fst r then Some (False, snd r)
           else matcher P G (ForInputs n1 n2 (i + 1)) (snd r) }
         else Some (True, m))"

text \<open>The two member functions, and the two loops of \<open>matchNodes\<close> from counter \<open>i\<close> on.\<close>

definition matchValues ::
  "Graph \<Rightarrow> Graph \<Rightarrow> value_ref \<Rightarrow> value_ref \<Rightarrow> SubgraphMatcher \<Rightarrow> (bool \<times> SubgraphMatcher) option" where
  "matchValues P G v1 v2 m = matcher P G (MatchValues v1 v2) m"

definition matchNodes ::
  "Graph \<Rightarrow> Graph \<Rightarrow> node_ref \<Rightarrow> node_ref \<Rightarrow> SubgraphMatcher \<Rightarrow> (bool \<times> SubgraphMatcher) option" where
  "matchNodes P G n1 n2 m = matcher P G (MatchNodes n1 n2) m"

definition for_outputs ::
  "Graph \<Rightarrow> Graph \<Rightarrow> node_ref \<Rightarrow> node_ref \<Rightarrow> nat \<Rightarrow> SubgraphMatcher \<Rightarrow> (bool \<times> SubgraphMatcher) option" where
  "for_outputs P G n1 n2 i m = matcher P G (ForOutputs n1 n2 i) m"

definition for_inputs ::
  "Graph \<Rightarrow> Graph \<Rightarrow> node_ref \<Rightarrow> node_ref \<Rightarrow> nat \<Rightarrow> SubgraphMatcher \<Rightarrow> (bool \<times> SubgraphMatcher) option" where
  "for_inputs P G n1 n2 i m = matcher P G (ForInputs n1 n2 i) m"

subsection \<open>matchesSubgraphFromAnchorNode\<close>

definition matchesSubgraphFromAnchorNode ::
  "Graph \<Rightarrow> Graph \<Rightarrow> node_ref \<Rightarrow> SubgraphMatcher \<Rightarrow> (error + bool \<times> SubgraphMatcher) option" where
  "matchesSubgraphFromAnchorNode P G a m =
     (let m1 = m\<lparr>m_nodes_map := Map.empty, m_values_map := Map.empty, m_anchor := a\<rparr>;
          bottom_node = return_node (blockAt P (block P))
      in if length (inputs (nodeAt P bottom_node)) \<noteq> 1 then Some (Inl AssertionFailure)
         else let bottom_node = node (valueAt P (hd (inputs (nodeAt P bottom_node))))
              in map_option Inr (matchNodes P G bottom_node a m1))"

subsection \<open>findPatternMatches\<close>

text \<open>The body of the loop over the nodes of one block: the variables it changes are the
  matcher, the vector of matches and the stack of blocks still to visit (top of the stack
  first). An assertion failure or a call that does not return ends the loop.\<close>

fun for_nodes ::
  "Graph \<Rightarrow> Graph \<Rightarrow> node_ref list \<Rightarrow> SubgraphMatcher \<times> Match list \<times> block_ref list \<Rightarrow>
   (error + SubgraphMatcher \<times> Match list \<times> block_ref list) option" where
  "for_nodes P G [] st = Some (Inr st)"
| "for_nodes P G (n # ns) (m, matches, blocks_to_visit) =
     (case matchesSubgraphFromAnchorNode P G n m of
        None \<Rightarrow> None
      | Some (Inl e) \<Rightarrow> Some (Inl e)
      | Some (Inr (ok, m')) \<Rightarrow>
          for_nodes P G ns
            (m',
             if ok then matches @ [\<lparr>anchor = n, nodes_map = m_nodes_map m', values_map = m_values_map m'\<rparr>]
             else matches,
             foldl (\<lambda>stack subblock. subblock # stack) blocks_to_visit (blocks (nodeAt G n))))"

partial_function (option) while_blocks ::
  "Graph \<Rightarrow> Graph \<Rightarrow> SubgraphMatcher \<times> Match list \<times> block_ref list \<Rightarrow> (error + Match list) option" where
  "while_blocks P G st =
     (case st of
        (m, matches, []) \<Rightarrow> Some (Inr matches)
      | (m, matches, b # blocks_to_visit) \<Rightarrow>
          (case for_nodes P G (nodes (blockAt G b)) (m, matches, blocks_to_visit) of
             None \<Rightarrow> None
           | Some (Inl e) \<Rightarrow> Some (Inl e)
           | Some (Inr st') \<Rightarrow> while_blocks P G st'))"

text \<open>A freshly constructed matcher: both maps empty. The source leaves \<open>anchor_\<close>
  uninitialised until the first attempt sets it; the model starts it at 0.\<close>

declare matcher.simps [code]
declare while_blocks.simps [code]

definition new_SubgraphMatcher :: SubgraphMatcher where
  "new_SubgraphMatcher = \<lparr>m_nodes_map = Map.empty, m_values_map = Map.empty, m_anchor = 0\<rparr>"

definition findPatternMatches :: "Graph \<Rightarrow> Graph \<Rightarrow> (error + Match list) option" where
  "findPatternMatches pattern graph =
     (if \<not> patternGraphIsValid pattern then Some (Inl AssertionFailure)
      else while_blocks pattern graph (new_SubgraphMatcher, [], [block graph]))"


section \<open>Finite graphs\<close>

text \<open>
  A graph built by the graph module is finite and its blocks nest as a tree; a store of
  records does not say so by itself. The two predicates below state it where a result
  depends on it.

  A pattern is finite when its recursion stays inside a finite set of nodes and a finite
  set of values: the defining node of each of these values is one of these nodes, and
  the inputs and outputs of each of these nodes are among these values. Cycles through
  definitions and uses are allowed.
\<close>

definition closed_pattern :: "Graph \<Rightarrow> node_ref set \<Rightarrow> value_ref set \<Rightarrow> bool" where
  "closed_pattern P NS VS \<longleftrightarrow>
     finite NS \<and> finite VS \<and>
     (\<forall>v \<in> VS. node (valueAt P v) \<in> NS) \<and>
     (\<forall>n \<in> NS. set (inputs (nodeAt P n)) \<subseteq> VS \<and> set (outputs (nodeAt P n)) \<subseteq> VS)"

text \<open>
  The nesting of the blocks of a target graph, written down as a finite tree: a block with,
  for each of its nodes in sequence order, the trees of the blocks that node owns.
  \<open>is_block_tree G t\<close> says that the store \<open>G\<close> has this nesting below the block at
  the root of \<open>t\<close>. \<open>tree_nodes t\<close> lists every node of the tree, nested ones included.
\<close>

datatype block_tree =
  BlockTree (tree_block: block_ref) (tree_entries: "(node_ref \<times> block_tree list) list")

fun is_block_tree :: "Graph \<Rightarrow> block_tree \<Rightarrow> bool" where
  "is_block_tree G (BlockTree b es) \<longleftrightarrow>
     nodes (blockAt G b) = map fst es \<and>
     (\<forall>e \<in> set es. blocks (nodeAt G (fst e)) = map tree_block (snd e) \<and>
        (\<forall>t \<in> set (snd e). is_block_tree G t))"

fun tree_nodes :: "block_tree \<Rightarrow> node_ref list" where
  "tree_nodes (BlockTree b es) =
     map fst es @ concat (map (\<lambda>e. concat (map tree_nodes (snd e))) es)"

fun tree_weight :: "block_tree \<Rightarrow> nat" where
  "tree_weight (BlockTree b es) =
     Suc (sum_list (map (\<lambda>e. sum_list (map tree_weight (snd e))) es))"

text \<open>Whether the attempt at anchor \<open>n\<close> reports a match.\<close>

definition matches_at :: "Graph \<Rightarrow> Graph \<Rightarrow> node_ref \<Rightarrow> bool" where
  "matches_at P G n \<longleftrightarrow>
     (case matchesSubgraphFromAnchorNode P G n new_SubgraphMatcher of
        Some (Inr (ok, m)) \<Rightarrow> ok
      | _ \<Rightarrow> False)"

text \<open>The node the match starts from: the defining node of the exit node's input,
  \<open>bottom_node->input()->node()\<close> in \<open>matchesSubgraphFromAnchorNode\<close>.\<close>

definition pattern_root :: "Graph \<Rightarrow> node_ref" where
  "pattern_root P = node (valueAt P (hd (inputs (nodeAt P (return_node (blockAt P (block P)))))))"

text \<open>The nodes and the weight of a list of block trees.\<close>

definition forest_nodes :: "block_tree list \<Rightarrow> node_ref list" where
  "forest_nodes ts = concat (map tree_nodes ts)"

definition forest_weight :: "block_tree list \<Rightarrow> nat" where
  "forest_weight ts = sum_list (map tree_weight ts)"

section \<open>Properties of the matcher's maps\<close>

text \<open>Every target node in the node map lies in the block that owns the anchor.\<close>

definition same_block_inv :: "Graph \<Rightarrow> SubgraphMatcher \<Rightarrow> bool" where
  "same_block_inv G m \<longleftrightarrow>
     (\<forall>pn tn. m_nodes_map m pn = Some tn \<longrightarrow>
        owningBlock (nodeAt G tn) = owningBlock (nodeAt G (m_anchor m)))"

text \<open>No key of the node map is a \<open>Param\<close> node.\<close>

definition no_param_keys :: "Graph \<Rightarrow> SubgraphMatcher \<Rightarrow> bool" where
  "no_param_keys P m \<longleftrightarrow> (\<forall>pn \<in> dom (m_nodes_map m). kind (nodeAt P pn) \<noteq> prim_Param)"

text \<open>The mapped pattern values whose defining node, not a \<open>Param\<close> node, is not mapped
  to the defining node of their target: between the two assignments to the maps there is
  one such value, the one \<open>matchValues\<close> has just recorded.\<close>

definition pending :: "Graph \<Rightarrow> Graph \<Rightarrow> SubgraphMatcher \<Rightarrow> value_ref set" where
  "pending P G m =
     {pv. \<exists>tv. m_values_map m pv = Some tv \<and>
            kind (nodeAt P (node (valueAt P pv))) \<noteq> prim_Param \<and>
            m_nodes_map m (node (valueAt P pv)) \<noteq> Some (node (valueAt G tv))}"

text \<open>How many of the pattern's values and nodes are not mapped yet: what the recursion
  uses up.\<close>

definition unmapped :: "node_ref set \<Rightarrow> value_ref set \<Rightarrow> SubgraphMatcher \<Rightarrow> nat" where
  "unmapped NS VS m = card (VS - dom (m_values_map m)) + card (NS - dom (m_nodes_map m))"

section \<open>Example graphs\<close>

text \<open>A store holding the given records at addresses \<open>0, 1, \<dots>\<close> and a default record
  everywhere else.\<close>

definition store :: "'a \<Rightarrow> 'a list \<Rightarrow> nat \<Rightarrow> 'a" where
  "store d xs r = (if r < length xs then xs ! r else d)"

definition no_node :: Node where
  "no_node = \<lparr>kind = prim_Return, inputs = [], outputs = [], owningBlock = 0, blocks = []\<rparr>"

definition no_value :: Value where
  "no_value = \<lparr>node = 0, uses = []\<rparr>"

definition no_block :: Block where
  "no_block = \<lparr>nodes = [], return_node = 0\<rparr>"

text \<open>The pattern \<open>Param -> Add -> Exit\<close>: node 0 is the \<open>Param\<close> node with the two pattern
  inputs as outputs, node 1 the addition (operator 1), node 2 the exit marker.\<close>

definition add_pattern :: Graph where
  "add_pattern = \<lparr>
     nodeAt = store no_node
       [\<lparr>kind = prim_Param, inputs = [], outputs = [0, 1], owningBlock = 0, blocks = []\<rparr>,
        \<lparr>kind = Operator 1, inputs = [0, 1], outputs = [2], owningBlock = 0, blocks = []\<rparr>,
        \<lparr>kind = prim_Return, inputs = [2], outputs = [], owningBlock = 0, blocks = []\<rparr>],
     valueAt = store no_value
       [\<lparr>node = 0, uses = [(1, 0)]\<rparr>, \<lparr>node = 0, uses = [(1, 1)]\<rparr>, \<lparr>node = 1, uses = [(2, 0)]\<rparr>],
     blockAt = store no_block [\<lparr>nodes = [1], return_node = 2\<rparr>],
     block = 0\<rparr>"

text \<open>The target \<open>Const(5) -> Add(x, 5) -> Mul(_, 2)\<close>: node 0 holds the graph input \<open>x\<close>,
  nodes 1 and 3 are the constants (operator 0), node 2 the addition, node 4 the
  multiplication (operator 2), node 5 the exit marker.\<close>

definition add_mul_graph :: Graph where
  "add_mul_graph = \<lparr>
     nodeAt = store no_node
       [\<lparr>kind = prim_Param, inputs = [], outputs = [0], owningBlock = 0, blocks = []\<rparr>,
        \<lparr>kind = Operator 0, inputs = [], outputs = [1], owningBlock = 0, blocks = []\<rparr>,
        \<lparr>kind = Operator 1, inputs = [0, 1], outputs = [2], owningBlock = 0, blocks = []\<rparr>,
        \<lparr>kind = Operator 0, inputs = [], outputs = [3], owningBlock = 0, blocks = []\<rparr>,
        \<lparr>kind = Operator 2, inputs = [2, 3], outputs = [4], owningBlock = 0, blocks = []\<rparr>,
        \<lparr>kind = prim_Return, inputs = [4], outputs = [], owningBlock = 0, blocks = []\<rparr>],
     valueAt = store no_value
       [\<lparr>node = 0, uses = [(2, 0)]\<rparr>, \<lparr>node = 1, uses = [(2, 1)]\<rparr>, \<lparr>node = 2, uses = [(4, 0)]\<rparr>,
        \<lparr>node = 3, uses = [(4, 1)]\<rparr>, \<lparr>node = 4, uses = [(5, 0)]\<rparr>],
     blockAt = store no_block [\<lparr>nodes = [1, 2, 3, 4], return_node = 5\<rparr>],
     block = 0\<rparr>"

text \<open>A target whose addition (node 1) takes three inputs.\<close>

definition add3_graph :: Graph where
  "add3_graph = \<lparr>
     nodeAt = store no_node
       [\<lparr>kind = prim_Param, inputs = [], outputs = [0, 1, 2], owningBlock = 0, blocks = []\<rparr>,
        \<lparr>kind = Operator 1, inputs = [0, 1, 2], outputs = [3], owningBlock = 0, blocks = []\<rparr>,
        \<lparr>kind = prim_Return, inputs = [3], outputs = [], owningBlock = 0, blocks = []\<rparr>],
     valueAt = store no_value
       [\<lparr>node = 0, uses = [(1, 0)]\<rparr>, \<lparr>node = 0, uses = [(1, 1)]\<rparr>, \<lparr>node = 0, uses = [(1, 2)]\<rparr>,
        \<lparr>node = 1, uses = [(2, 0)]\<rparr>],
     blockAt = store no_block [\<lparr>nodes = [1], return_node = 2\<rparr>],
     block = 0\<rparr>"

text \<open>The pattern \<open>Param -> A -> B -> Exit\<close> (operators 1 and 2): value 1, the output of
  \<open>A\<close>, is interior and has one use; value 2, the output of \<open>B\<close>, leaves the pattern.\<close>

definition chain_pattern :: Graph where
  "chain_pattern = \<lparr>
     nodeAt = store no_node
       [\<lparr>kind = prim_Param, inputs = [], outputs = [0], owningBlock = 0, blocks = []\<rparr>,
        \<lparr>kind = Operator 1, inputs = [0], outputs = [1], owningBlock = 0, blocks = []\<rparr>,
        \<lparr>kind = Operator 2, inputs = [1], outputs = [2], owningBlock = 0, blocks = []\<rparr>,
        \<lparr>kind = prim_Return, inputs = [2], outputs = [], owningBlock = 0, blocks = []\<rparr>],
     valueAt = store no_value
       [\<lparr>node = 0, uses = [(1, 0)]\<rparr>, \<lparr>node = 1, uses = [(2, 0)]\<rparr>, \<lparr>node = 2, uses = [(3, 0)]\<rparr>],
     blockAt = store no_block [\<lparr>nodes = [1, 2], return_node = 3\<rparr>],
     block = 0\<rparr>"

text \<open>Two copies of the chain \<open>A -> B\<close> on the graph input. In the first (nodes 1 and 2)
  the output of \<open>B\<close>, value 2, has three uses, all outside the chain. In the second (nodes
  3 and 4) the output of \<open>A\<close>, value 3, has three uses, one by \<open>B\<close> and two outside.
  Node 5 (operator 3) is the outside user.\<close>

definition chains_graph :: Graph where
  "chains_graph = \<lparr>
     nodeAt = store no_node
       [\<lparr>kind = prim_Param, inputs = [], outputs = [0], owningBlock = 0, blocks = []\<rparr>,
        \<lparr>kind = Operator 1, inputs = [0], outputs = [1], owningBlock = 0, blocks = []\<rparr>,
        \<lparr>kind = Operator 2, inputs = [1], outputs = [2], owningBlock = 0, blocks = []\<rparr>,
        \<lparr>kind = Operator 1, inputs = [0], outputs = [3], owningBlock = 0, blocks = []\<rparr>,
        \<lparr>kind = Operator 2, inputs = [3], outputs = [4], owningBlock = 0, blocks = []\<rparr>,
        \<lparr>kind = Operator 3, inputs = [2, 2, 2, 3, 3], outputs = [5], owningBlock = 0, blocks = []\<rparr>,
        \<lparr>kind = prim_Return, inputs = [5], outputs = [], owningBlock = 0, blocks = []\<rparr>],
     valueAt = store no_value
       [\<lparr>node = 0, uses = [(1, 0), (3, 0)]\<rparr>,
        \<lparr>node = 1, uses = [(2, 0)]\<rparr>,
        \<lparr>node = 2, uses = [(5, 0), (5, 1), (5, 2)]\<rparr>,
        \<lparr>node = 3, uses = [(4, 0), (5, 3), (5, 4)]\<rparr>,
        \<lparr>node = 4, uses = []\<rparr>,
        \<lparr>node = 5, uses = [(6, 0)]\<rparr>],
     blockAt = store no_block [\<lparr>nodes = [1, 2, 3, 4, 5], return_node = 6\<rparr>],
     block = 0\<rparr>"

text \<open>A target with nested blocks. The root block 0 holds a constant (node 1) and a
  conditional (node 2, operator 4) owning the blocks 1 and 2. Block 1 holds an addition
  (node 4) of the graph input and the constant, both defined in block 0; block 2 holds a
  constant (node 6). Nodes 3, 5 and 7 are the exit markers of the three blocks.\<close>

definition nested_graph :: Graph where
  "nested_graph = \<lparr>
     nodeAt = store no_node
       [\<lparr>kind = prim_Param, inputs = [], outputs = [0], owningBlock = 0, blocks = []\<rparr>,
        \<lparr>kind = Operator 0, inputs = [], outputs = [1], owningBlock = 0, blocks = []\<rparr>,
        \<lparr>kind = Operator 4, inputs = [0], outputs = [2], owningBlock = 0, blocks = [1, 2]\<rparr>,
        \<lparr>kind = prim_Return, inputs = [2], outputs = [], owningBlock = 0, blocks = []\<rparr>,
        \<lparr>kind = Operator 1, inputs = [0, 1], outputs = [3], owningBlock = 1, blocks = []\<rparr>,
        \<lparr>kind = prim_Return, inputs = [3], outputs = [], owningBlock = 1, blocks = []\<rparr>,
        \<lparr>kind = Operator 0, inputs = [], outputs = [4], owningBlock = 2, blocks = []\<rparr>,
        \<lparr>kind = prim_Return, inputs = [4], outputs = [], owningBlock = 2, blocks = []\<rparr>],
     valueAt = store no_value
       [\<lparr>node = 0, uses = [(2, 0), (4, 0)]\<rparr>,
        \<lparr>node = 1, uses = [(4, 1)]\<rparr>,
        \<lparr>node = 2, uses = [(3, 0)]\<rparr>,
        \<lparr>node = 4, uses = [(5, 0)]\<rparr>,
        \<lparr>node = 6, uses = [(7, 0)]\<rparr>],
     blockAt = store no_block
       [\<lparr>nodes = [1, 2], return_node = 3\<rparr>,
        \<lparr>nodes = [4], return_node = 5\<rparr>,
        \<lparr>nodes = [6], return_node = 7\<rparr>],
     block = 0\<rparr>"

definition nested_tree :: block_tree where
  "nested_tree = BlockTree 0 [(1, []), (2, [BlockTree 1 [(4, [])], BlockTree 2 [(6, [])]])]"

text \<open>The pattern that is only a \<open>Param\<close> node (node 0) feeding the exit marker (node 1).\<close>

definition param_pattern :: Graph where
  "param_pattern = \<lparr>
     nodeAt = store no_node
       [\<lparr>kind = prim_Param, inputs = [], outputs = [0], owningBlock = 0, blocks = []\<rparr>,
        \<lparr>kind = prim_Return, inputs = [0], outputs = [], owningBlock = 0, blocks = []\<rparr>],
     valueAt = store no_value [\<lparr>node = 0, uses = [(1, 0)]\<rparr>],
     blockAt = store no_block [\<lparr>nodes = [], return_node = 1\<rparr>],
     block = 0\<rparr>"

text \<open>A matcher in the middle of an attempt at anchor \<open>a\<close>, before anything is mapped.\<close>

definition attempt_at :: "node_ref \<Rightarrow> SubgraphMatcher" where
  "attempt_at a = \<lparr>m_nodes_map = Map.empty, m_values_map = Map.empty, m_anchor = a\<rparr>"


text \<open>A graph whose two operators feed each other: node 0 uses the output of node 1 and
  node 1 the output of node 0.\<close>

definition cyclic_graph :: Graph where
  "cyclic_graph = \<lparr>
     nodeAt = store no_node
       [\<lparr>kind = Operator 1, inputs = [1], outputs = [0], owningBlock = 0, blocks = []\<rparr>,
        \<lparr>kind = Operator 2, inputs = [0], outputs = [1], owningBlock = 0, blocks = []\<rparr>,
        \<lparr>kind = prim_Return, inputs = [0], outputs = [], owningBlock = 0, blocks = []\<rparr>],
     valueAt = store no_value
       [\<lparr>node = 0, uses = [(1, 0), (2, 0)]\<rparr>, \<lparr>node = 1, uses = [(0, 0)]\<rparr>],
     blockAt = store no_block [\<lparr>nodes = [0, 1], return_node = 2\<rparr>],
     block = 0\<rparr>"

text \<open>A pattern with two nodes of the same kind (nodes 1 and 2, operator 1) on the two
  pattern inputs, multiplied by node 3 (operator 2); node 4 (operator 3) uses both their
  outputs and its own output is used by nothing.\<close>

definition alias_pattern :: Graph where
  "alias_pattern = \<lparr>
     nodeAt = store no_node
       [\<lparr>kind = prim_Param, inputs = [], outputs = [0, 1], owningBlock = 0, blocks = []\<rparr>,
        \<lparr>kind = Operator 1, inputs = [0], outputs = [2], owningBlock = 0, blocks = []\<rparr>,
        \<lparr>kind = Operator 1, inputs = [1], outputs = [3], owningBlock = 0, blocks = []\<rparr>,
        \<lparr>kind = Operator 2, inputs = [2, 3], outputs = [4], owningBlock = 0, blocks = []\<rparr>,
        \<lparr>kind = Operator 3, inputs = [2, 3], outputs = [5], owningBlock = 0, blocks = []\<rparr>,
        \<lparr>kind = prim_Return, inputs = [4], outputs = [], owningBlock = 0, blocks = []\<rparr>],
     valueAt = store no_value
       [\<lparr>node = 0, uses = [(1, 0)]\<rparr>,
        \<lparr>node = 0, uses = [(2, 0)]\<rparr>,
        \<lparr>node = 1, uses = [(3, 0), (4, 0)]\<rparr>,
        \<lparr>node = 2, uses = [(3, 1), (4, 1)]\<rparr>,
        \<lparr>node = 3, uses = [(5, 0)]\<rparr>,
        \<lparr>node = 4, uses = []\<rparr>],
     blockAt = store no_block [\<lparr>nodes = [1, 2, 3, 4], return_node = 5\<rparr>],
     block = 0\<rparr>"

text \<open>The target \<open>Mul(f(x), f(x))\<close>: node 1 (operator 1) on the graph input, and node 2
  (operator 2) taking its output twice.\<close>

definition square_graph :: Graph where
  "square_graph = \<lparr>
     nodeAt = store no_node
       [\<lparr>kind = prim_Param, inputs = [], outputs = [0], owningBlock = 0, blocks = []\<rparr>,
        \<lparr>kind = Operator 1, inputs = [0], outputs = [1], owningBlock = 0, blocks = []\<rparr>,
        \<lparr>kind = Operator 2, inputs = [1, 1], outputs = [2], owningBlock = 0, blocks = []\<rparr>,
        \<lparr>kind = prim_Return, inputs = [2], outputs = [], owningBlock = 0, blocks = []\<rparr>],
     valueAt = store no_value
       [\<lparr>node = 0, uses = [(1, 0)]\<rparr>,
        \<lparr>node = 1, uses = [(2, 0), (2, 1)]\<rparr>,
        \<lparr>node = 2, uses = [(3, 0)]\<rparr>],
     blockAt = store no_block [\<lparr>nodes = [1, 2], return_node = 3\<rparr>],
     block = 0\<rparr>"

text \<open>The match of the pattern above in this target, at the multiplication.\<close>

definition square_match :: Match where
  "square_match = \<lparr>anchor = 2, nodes_map = [3 \<mapsto> 2, 1 \<mapsto> 1, 2 \<mapsto> 1],
     values_map = [4 \<mapsto> 2, 2 \<mapsto> 1, 0 \<mapsto> 0, 3 \<mapsto> 1, 1 \<mapsto> 0]\<rparr>"

section \<open>The source's functions, equation by equation\<close>

lemma matchValues_unfold:
  "matchValues P G v1 v2 m =
     (if v1 \<in> dom (m_values_map m) then Some (m_values_map m v1 = Some v2, m)
      else if length (uses (valueAt P v1)) \<noteq> length (uses (valueAt G v2)) \<and>
              node (valueAt G v2) \<noteq> m_anchor m \<and>
              kind (nodeAt P (node (valueAt P v1))) \<noteq> prim_Param
      then Some (False, m)
      else matchNodes P G (node (valueAt P v1)) (node (valueAt G v2))
             (m\<lparr>m_values_map := (m_values_map m)(v1 \<mapsto> v2)\<rparr>))"
  unfolding matchValues_def matchNodes_def by (subst matcher.simps) simp

lemma matchNodes_unfold:
  "matchNodes P G n1 n2 m =
     (if n1 \<in> dom (m_nodes_map m) then Some (m_nodes_map m n1 = Some n2, m)
      else if kind (nodeAt P n1) = prim_Param then Some (True, m)
      else if owningBlock (nodeAt G n2) \<noteq> owningBlock (nodeAt G (m_anchor m))
      then Some (False, m)
      else if kind (nodeAt P n1) \<noteq> kind (nodeAt G n2) \<or>
              length (outputs (nodeAt P n1)) \<noteq> length (outputs (nodeAt G n2)) \<or>
              length (inputs (nodeAt P n1)) \<noteq> length (inputs (nodeAt G n2))
      then Some (False, m)
      else for_outputs P G n1 n2 0 (m\<lparr>m_nodes_map := (m_nodes_map m)(n1 \<mapsto> n2)\<rparr>))"
  unfolding matchNodes_def for_outputs_def by (subst matcher.simps) simp

lemma for_outputs_unfold:
  "for_outputs P G n1 n2 i m =
     (if i < length (outputs (nodeAt P n1))
      then (case matchValues P G (outputs (nodeAt P n1) ! i) (outputs (nodeAt G n2) ! i) m of
              None \<Rightarrow> None
            | Some (ok, m') \<Rightarrow> if \<not> ok then Some (False, m') else for_outputs P G n1 n2 (i + 1) m')
      else for_inputs P G n1 n2 0 m)"
  unfolding matchValues_def for_outputs_def for_inputs_def
  by (subst matcher.simps) (simp split: option.split prod.split)

lemma for_inputs_unfold:
  "for_inputs P G n1 n2 i m =
     (if i < length (inputs (nodeAt P n1))
      then (case matchValues P G (inputs (nodeAt P n1) ! i) (inputs (nodeAt G n2) ! i) m of
              None \<Rightarrow> None
            | Some (ok, m') \<Rightarrow> if \<not> ok then Some (False, m') else for_inputs P G n1 n2 (i + 1) m')
      else Some (True, m))"
  unfolding matchValues_def for_inputs_def
  by (subst matcher.simps) (simp split: option.split prod.split)

lemma while_blocks_unfold:
  "while_blocks P G (m, matches, []) = Some (Inr matches)"
  "while_blocks P G (m, matches, b # blocks_to_visit) =
     (case for_nodes P G (nodes (blockAt G b)) (m, matches, blocks_to_visit) of
        None \<Rightarrow> None
      | Some (Inl e) \<Rightarrow> Some (Inl e)
      | Some (Inr st') \<Rightarrow> while_blocks P G st')"
  by (subst while_blocks.simps, simp)+

lemmas run_simps = matchValues_unfold matchNodes_unfold for_outputs_unfold for_inputs_unfold
  while_blocks_unfold matchesSubgraphFromAnchorNode_def findPatternMatches_def
  patternGraphIsValid_def new_SubgraphMatcher_def attempt_at_def store_def

text \<open>Induction over a call that returns: one case for each way through the source.\<close>

lemma matcher_induct [consumes 1, case_names ValuesSeen ValuesUses ValuesNew NodesSeen NodesParam NodesBlock NodesShape NodesNew OutputsFail OutputsNext OutputsDone InputsFail InputsNext InputsDone]:
  assumes run: "matcher P G c m = Some (b, m')"
    and ValuesSeen: "\<And>v1 v2 m. v1 \<in> dom (m_values_map m) \<Longrightarrow>
           Q (MatchValues v1 v2) m (m_values_map m v1 = Some v2) m"
    and ValuesUses: "\<And>v1 v2 m. v1 \<notin> dom (m_values_map m) \<Longrightarrow>
           length (uses (valueAt P v1)) \<noteq> length (uses (valueAt G v2)) \<Longrightarrow>
           node (valueAt G v2) \<noteq> m_anchor m \<Longrightarrow>
           kind (nodeAt P (node (valueAt P v1))) \<noteq> prim_Param \<Longrightarrow>
           Q (MatchValues v1 v2) m False m"
    and ValuesNew: "\<And>v1 v2 m b m'. v1 \<notin> dom (m_values_map m) \<Longrightarrow>
           \<not> (length (uses (valueAt P v1)) \<noteq> length (uses (valueAt G v2)) \<and>
              node (valueAt G v2) \<noteq> m_anchor m \<and>
              kind (nodeAt P (node (valueAt P v1))) \<noteq> prim_Param) \<Longrightarrow>
           Q (MatchNodes (node (valueAt P v1)) (node (valueAt G v2)))
             (m\<lparr>m_values_map := (m_values_map m)(v1 \<mapsto> v2)\<rparr>) b m' \<Longrightarrow>
           Q (MatchValues v1 v2) m b m'"
    and NodesSeen: "\<And>n1 n2 m. n1 \<in> dom (m_nodes_map m) \<Longrightarrow>
           Q (MatchNodes n1 n2) m (m_nodes_map m n1 = Some n2) m"
    and NodesParam: "\<And>n1 n2 m. n1 \<notin> dom (m_nodes_map m) \<Longrightarrow>
           kind (nodeAt P n1) = prim_Param \<Longrightarrow> Q (MatchNodes n1 n2) m True m"
    and NodesBlock: "\<And>n1 n2 m. n1 \<notin> dom (m_nodes_map m) \<Longrightarrow>
           kind (nodeAt P n1) \<noteq> prim_Param \<Longrightarrow>
           owningBlock (nodeAt G n2) \<noteq> owningBlock (nodeAt G (m_anchor m)) \<Longrightarrow>
           Q (MatchNodes n1 n2) m False m"
    and NodesShape: "\<And>n1 n2 m. n1 \<notin> dom (m_nodes_map m) \<Longrightarrow>
           kind (nodeAt P n1) \<noteq> prim_Param \<Longrightarrow>
           owningBlock (nodeAt G n2) = owningBlock (nodeAt G (m_anchor m)) \<Longrightarrow>
           kind (nodeAt P n1) \<noteq> kind (nodeAt G n2) \<or>
           length (outputs (nodeAt P n1)) \<noteq> length (outputs (nodeAt G n2)) \<or>
           length (inputs (nodeAt P n1)) \<noteq> length (inputs (nodeAt G n2)) \<Longrightarrow>
           Q (MatchNodes n1 n2) m False m"
    and NodesNew: "\<And>n1 n2 m b m'. n1 \<notin> dom (m_nodes_map m) \<Longrightarrow>
           kind (nodeAt P n1) \<noteq> prim_Param \<Longrightarrow>
           owningBlock (nodeAt G n2) = owningBlock (nodeAt G (m_anchor m)) \<Longrightarrow>
           kind (nodeAt P n1) = kind (nodeAt G n2) \<Longrightarrow>
           length (outputs (nodeAt P n1)) = length (outputs (nodeAt G n2)) \<Longrightarrow>
           length (inputs (nodeAt P n1)) = length (inputs (nodeAt G n2)) \<Longrightarrow>
           Q (ForOutputs n1 n2 0) (m\<lparr>m_nodes_map := (m_nodes_map m)(n1 \<mapsto> n2)\<rparr>) b m' \<Longrightarrow>
           Q (MatchNodes n1 n2) m b m'"
    and OutputsFail: "\<And>n1 n2 i m m1. i < length (outputs (nodeAt P n1)) \<Longrightarrow>
           Q (MatchValues (outputs (nodeAt P n1) ! i) (outputs (nodeAt G n2) ! i)) m False m1 \<Longrightarrow>
           Q (ForOutputs n1 n2 i) m False m1"
    and OutputsNext: "\<And>n1 n2 i m m1 b m'. i < length (outputs (nodeAt P n1)) \<Longrightarrow>
           Q (MatchValues (outputs (nodeAt P n1) ! i) (outputs (nodeAt G n2) ! i)) m True m1 \<Longrightarrow>
           Q (ForOutputs n1 n2 (i + 1)) m1 b m' \<Longrightarrow>
           Q (ForOutputs n1 n2 i) m b m'"
    and OutputsDone: "\<And>n1 n2 i m b m'. \<not> i < length (outputs (nodeAt P n1)) \<Longrightarrow>
           Q (ForInputs n1 n2 0) m b m' \<Longrightarrow> Q (ForOutputs n1 n2 i) m b m'"
    and InputsFail: "\<And>n1 n2 i m m1. i < length (inputs (nodeAt P n1)) \<Longrightarrow>
           Q (MatchValues (inputs (nodeAt P n1) ! i) (inputs (nodeAt G n2) ! i)) m False m1 \<Longrightarrow>
           Q (ForInputs n1 n2 i) m False m1"
    and InputsNext: "\<And>n1 n2 i m m1 b m'. i < length (inputs (nodeAt P n1)) \<Longrightarrow>
           Q (MatchValues (inputs (nodeAt P n1) ! i) (inputs (nodeAt G n2) ! i)) m True m1 \<Longrightarrow>
           Q (ForInputs n1 n2 (i + 1)) m1 b m' \<Longrightarrow>
           Q (ForInputs n1 n2 i) m b m'"
    and InputsDone: "\<And>n1 n2 i m. \<not> i < length (inputs (nodeAt P n1)) \<Longrightarrow>
           Q (ForInputs n1 n2 i) m True m"
  shows "Q c m b m'"
proof -
  define R where "R = (\<lambda>x r. case x of (((P', G'), c), m) \<Rightarrow>
      P' = P \<longrightarrow> G' = G \<longrightarrow> Q c m (fst r) (snd r))"
  have "R (((P, G), c), m) (b, m')"
  proof (rule matcher.raw_induct[OF _ run], goal_cases)
    case (1 f P' G' c m r)
    have IH: "Q c' m' b' m''" if "f P G c' m' = Some (b', m'')" for c' m' b' m''
      using 1(1)[OF that] by (simp add: R_def)
    have "Q c m (fst r) (snd r)" if eq: "P' = P" "G' = G"
    proof (cases c)
      case c: (MatchValues v1 v2)
      show ?thesis
      proof (cases "v1 \<in> dom (m_values_map m)")
        case True
        with 1(2) eq c have "r = (m_values_map m v1 = Some v2, m)" by simp
        with ValuesSeen[OF True, of v2] c show ?thesis by simp
      next
        case new: False
        show ?thesis
        proof (cases "length (uses (valueAt P v1)) \<noteq> length (uses (valueAt G v2)) \<and>
              node (valueAt G v2) \<noteq> m_anchor m \<and>
              kind (nodeAt P (node (valueAt P v1))) \<noteq> prim_Param")
          case True
          with 1(2) eq c new have "r = (False, m)" by simp
          with ValuesUses[OF new, of v2] True c show ?thesis by simp
        next
          case False
          with 1(2) eq c new
          have "f P G (MatchNodes (node (valueAt P v1)) (node (valueAt G v2)))
                 (m\<lparr>m_values_map := (m_values_map m)(v1 \<mapsto> v2)\<rparr>) = Some (fst r, snd r)"
            by simp
          from ValuesNew[OF new False IH[OF this]] c show ?thesis by simp
        qed
      qed
    next
      case c: (MatchNodes n1 n2)
      show ?thesis
      proof (cases "n1 \<in> dom (m_nodes_map m)")
        case True
        with 1(2) eq c have "r = (m_nodes_map m n1 = Some n2, m)" by simp
        with NodesSeen[OF True, of n2] c show ?thesis by simp
      next
        case new: False
        show ?thesis
        proof (cases "kind (nodeAt P n1) = prim_Param")
          case True
          with 1(2) eq c new have "r = (True, m)" by simp
          with NodesParam[OF new True, of n2] c show ?thesis by simp
        next
          case np: False
          show ?thesis
          proof (cases "owningBlock (nodeAt G n2) \<noteq> owningBlock (nodeAt G (m_anchor m))")
            case True
            with 1(2) eq c new np have "r = (False, m)" by simp
            with NodesBlock[OF new np True] c show ?thesis by simp
          next
            case False
            then have blk: "owningBlock (nodeAt G n2) = owningBlock (nodeAt G (m_anchor m))" by simp
            show ?thesis
            proof (cases "kind (nodeAt P n1) \<noteq> kind (nodeAt G n2) \<or>
                length (outputs (nodeAt P n1)) \<noteq> length (outputs (nodeAt G n2)) \<or>
                length (inputs (nodeAt P n1)) \<noteq> length (inputs (nodeAt G n2))")
              case True
              with 1(2) eq c new np blk have "r = (False, m)" by simp
              with NodesShape[OF new np blk True] c show ?thesis by simp
            next
              case False
              with 1(2) eq c new np blk
              have "f P G (ForOutputs n1 n2 0) (m\<lparr>m_nodes_map := (m_nodes_map m)(n1 \<mapsto> n2)\<rparr>)
                     = Some (fst r, snd r)"
                by simp
              from NodesNew[OF new np blk _ _ _ IH[OF this]] False c show ?thesis by simp
            qed
          qed
        qed
      qed
    next
      case c: (ForOutputs n1 n2 i)
      show ?thesis
      proof (cases "i < length (outputs (nodeAt P n1))")
        case True
        with 1(2) eq c obtain x where
          x: "f P G (MatchValues (outputs (nodeAt P n1) ! i) (outputs (nodeAt G n2) ! i)) m = Some x"
          and rest': "(if \<not> fst x then Some (False, snd x)
                      else f P G (ForOutputs n1 n2 (i + 1)) (snd x)) = Some r"
          by (auto split: bind_splits)
        from x have first: "f P G (MatchValues (outputs (nodeAt P n1) ! i) (outputs (nodeAt G n2) ! i)) m
                    = Some (fst x, snd x)" by simp
        show ?thesis
        proof (cases "fst x")
          case ok: True
          with rest' have "f P G (ForOutputs n1 n2 (i + 1)) (snd x) = Some (fst r, snd r)" by simp
          moreover from first ok
          have "f P G (MatchValues (outputs (nodeAt P n1) ! i) (outputs (nodeAt G n2) ! i)) m
                  = Some (True, snd x)" by simp
          ultimately show ?thesis using OutputsNext[OF True IH IH] c by simp
        next
          case ok: False
          with rest' have "r = (False, snd x)" by simp
          moreover from first ok
          have "f P G (MatchValues (outputs (nodeAt P n1) ! i) (outputs (nodeAt G n2) ! i)) m
                  = Some (False, snd x)" by simp
          ultimately show ?thesis using OutputsFail[OF True IH] c by simp
        qed
      next
        case False
        with 1(2) eq c have "f P G (ForInputs n1 n2 0) m = Some (fst r, snd r)" by simp
        from OutputsDone[OF False IH[OF this]] c show ?thesis by simp
      qed
    next
      case c: (ForInputs n1 n2 i)
      show ?thesis
      proof (cases "i < length (inputs (nodeAt P n1))")
        case True
        with 1(2) eq c obtain x where
          x: "f P G (MatchValues (inputs (nodeAt P n1) ! i) (inputs (nodeAt G n2) ! i)) m = Some x"
          and rest': "(if \<not> fst x then Some (False, snd x)
                      else f P G (ForInputs n1 n2 (i + 1)) (snd x)) = Some r"
          by (auto split: bind_splits)
        from x have first: "f P G (MatchValues (inputs (nodeAt P n1) ! i) (inputs (nodeAt G n2) ! i)) m
                    = Some (fst x, snd x)" by simp
        show ?thesis
        proof (cases "fst x")
          case ok: True
          with rest' have "f P G (ForInputs n1 n2 (i + 1)) (snd x) = Some (fst r, snd r)" by simp
          moreover from first ok
          have "f P G (MatchValues (inputs (nodeAt P n1) ! i) (inputs (nodeAt G n2) ! i)) m
                  = Some (True, snd x)" by simp
          ultimately show ?thesis using InputsNext[OF True IH IH] c by simp
        next
          case ok: False
          with rest' have "r = (False, snd x)" by simp
          moreover from first ok
          have "f P G (MatchValues (inputs (nodeAt P n1) ! i) (inputs (nodeAt G n2) ! i)) m
                  = Some (False, snd x)" by simp
          ultimately show ?thesis using InputsFail[OF True IH] c by simp
        qed
      next
        case False
        with 1(2) eq c have "r = (True, m)" by simp
        with InputsDone[OF False, of n2 m] c show ?thesis by simp
      qed
    qed
    then show ?case by (simp add: R_def)
  qed
  then show ?thesis by (simp add: R_def)
qed

section \<open>The pattern validator\<close>

lemma single_block_loop_iff:
  "single_block_loop pattern ns \<longleftrightarrow> (\<forall>n \<in> set ns. blocks (nodeAt pattern n) = [])"
  by (induction ns) simp_all

text \<open>
  Claim C2. \<open>patternGraphIsValid\<close> returns true exactly when no node in the sequence of
  the pattern's root block owns a sub-block and the exit node of that block has exactly
  one input; when either check fails it returns false.
\<close>

theorem patternGraphIsValid_iff:
  "patternGraphIsValid pattern \<longleftrightarrow>
     (\<forall>n \<in> set (nodes (blockAt pattern (block pattern))). blocks (nodeAt pattern n) = []) \<and>
     length (inputs (nodeAt pattern (return_node (blockAt pattern (block pattern))))) = 1"
  by (simp add: patternGraphIsValid_def single_block_loop_iff Let_def)

theorem patternGraphIsValid_iff_witness:
  "patternGraphIsValid add_pattern \<and>
   1 \<in> set (nodes (blockAt add_pattern (block add_pattern))) \<and>
   \<not> patternGraphIsValid nested_graph \<and>
   \<not> patternGraphIsValid (add_pattern\<lparr>blockAt := store no_block [\<lparr>nodes = [1], return_node = 1\<rparr>]\<rparr>)"
  using patternGraphIsValid_iff [of add_pattern] patternGraphIsValid_iff [of nested_graph]
    patternGraphIsValid_iff [of "add_pattern\<lparr>blockAt := store no_block [\<lparr>nodes = [1], return_node = 1\<rparr>]\<rparr>"]
  by (simp add: add_pattern_def nested_graph_def store_def)

section \<open>One step of the matcher\<close>

text \<open>
  Claim C3. For a pattern value \<open>pv\<close> that is not mapped yet, \<open>matchValues\<close> fails when
  the use counts of \<open>pv\<close> and \<open>tv\<close> differ, unless the defining node of \<open>tv\<close> is the anchor
  or the defining node of \<open>pv\<close> is a \<open>Param\<close> node; in every other case it records the pair
  and its result is that of \<open>matchNodes\<close> on the two defining nodes. The witness runs the
  two situations of the claim: a target value with three uses matches a pattern value with
  one use when it is the anchor's output, and fails to when it is interior.
\<close>

theorem matchValues_use_count_rule:
  assumes "pv \<notin> dom (m_values_map m)"
  shows "matchValues P G pv tv m =
     (if length (uses (valueAt P pv)) \<noteq> length (uses (valueAt G tv)) \<and>
         \<not> (node (valueAt G tv) = m_anchor m \<or> kind (nodeAt P (node (valueAt P pv))) = prim_Param)
      then Some (False, m)
      else matchNodes P G (node (valueAt P pv)) (node (valueAt G tv))
             (m\<lparr>m_values_map := (m_values_map m)(pv \<mapsto> tv)\<rparr>))"
  using assms by (subst matchValues_unfold) simp

theorem matchValues_use_count_rule_witness:
  "2 \<notin> dom (m_values_map (attempt_at 2)) \<and>
   length (uses (valueAt chain_pattern 2)) = 1 \<and> length (uses (valueAt chains_graph 2)) = 3 \<and>
   (\<exists>m'. matchValues chain_pattern chains_graph 2 2 (attempt_at 2) = Some (True, m')) \<and>
   1 \<notin> dom (m_values_map (attempt_at 4)) \<and>
   length (uses (valueAt chain_pattern 1)) = 1 \<and> length (uses (valueAt chains_graph 3)) = 3 \<and>
   matchValues chain_pattern chains_graph 1 3 (attempt_at 4) = Some (False, attempt_at 4)"
  using matchValues_use_count_rule [of 2 "attempt_at 2" chain_pattern chains_graph 2]
    matchValues_use_count_rule [of 1 "attempt_at 4" chain_pattern chains_graph 3]
  by (simp add: run_simps chain_pattern_def chains_graph_def)

text \<open>
  Claim C4. For a pattern node \<open>pn\<close> that is not mapped and not a \<open>Param\<close> node,
  \<open>matchNodes\<close> fails unless \<open>pn\<close> and \<open>tn\<close> have the same kind, the same number of outputs
  and the same number of inputs; so a node of some kind with two inputs never matches a
  node of that kind with three.
\<close>

theorem matchNodes_structural_rule:
  assumes "pn \<notin> dom (m_nodes_map m)" and "kind (nodeAt P pn) \<noteq> prim_Param"
    and "kind (nodeAt P pn) \<noteq> kind (nodeAt G tn) \<or>
         length (outputs (nodeAt P pn)) \<noteq> length (outputs (nodeAt G tn)) \<or>
         length (inputs (nodeAt P pn)) \<noteq> length (inputs (nodeAt G tn))"
  shows "matchNodes P G pn tn m = Some (False, m)"
  using assms by (subst matchNodes_unfold) auto

theorem matchNodes_structural_rule_witness:
  "1 \<notin> dom (m_nodes_map (attempt_at 1)) \<and>
   kind (nodeAt add_pattern 1) = kind (nodeAt add3_graph 1) \<and>
   length (inputs (nodeAt add_pattern 1)) = 2 \<and> length (inputs (nodeAt add3_graph 1)) = 3 \<and>
   matchNodes add_pattern add3_graph 1 1 (attempt_at 1) = Some (False, attempt_at 1)"
  using matchNodes_structural_rule [of 1 "attempt_at 1" add_pattern add3_graph 1]
  by (simp add: add_pattern_def add3_graph_def attempt_at_def store_def)

text \<open>
  Claim C10. For a pattern node \<open>pn\<close> of kind \<open>Param\<close> that is not mapped, \<open>matchNodes\<close>
  returns true for every target node, whatever block owns it, and changes nothing: the
  \<open>Param\<close> test comes before the comparison of owning blocks. In the witness the anchor
  is the addition inside a nested block and the \<open>Param\<close> node is compared with a node of
  the root block.
\<close>

theorem matchNodes_param_any_block:
  assumes "pn \<notin> dom (m_nodes_map m)" and "kind (nodeAt P pn) = prim_Param"
  shows "matchNodes P G pn tn m = Some (True, m)"
  using assms by (subst matchNodes_unfold) simp

theorem matchNodes_param_any_block_witness:
  "0 \<notin> dom (m_nodes_map (attempt_at 4)) \<and>
   owningBlock (nodeAt nested_graph 1) \<noteq> owningBlock (nodeAt nested_graph (m_anchor (attempt_at 4))) \<and>
   matchNodes add_pattern nested_graph 0 1 (attempt_at 4) = Some (True, attempt_at 4) \<and>
   findPatternMatches add_pattern nested_graph =
     Some (Inr [\<lparr>anchor = 4, nodes_map = [1 \<mapsto> 4], values_map = [2 \<mapsto> 3, 0 \<mapsto> 0, 1 \<mapsto> 1]\<rparr>])"
  using matchNodes_param_any_block [of 0 "attempt_at 4" add_pattern nested_graph 1]
  by (simp add: run_simps add_pattern_def nested_graph_def)

section \<open>The maps only grow\<close>

text \<open>A call that returns leaves every entry of both maps as it was, and leaves the anchor.\<close>

lemma matcher_grows:
  assumes "matcher P G c m = Some (b, m')"
  shows "m_nodes_map m \<subseteq>\<^sub>m m_nodes_map m' \<and> m_values_map m \<subseteq>\<^sub>m m_values_map m' \<and>
         m_anchor m' = m_anchor m"
  using assms
proof (induction rule: matcher_induct)
  case (ValuesNew v1 v2 m b m')
  have "m_values_map m \<subseteq>\<^sub>m (m_values_map m)(v1 \<mapsto> v2)"
    using ValuesNew(1) by (auto simp: map_le_def)
  moreover from ValuesNew(3) have "(m_values_map m)(v1 \<mapsto> v2) \<subseteq>\<^sub>m m_values_map m'"
    by (simp del: fun_upd_apply)
  ultimately have "m_values_map m \<subseteq>\<^sub>m m_values_map m'" by (rule map_le_trans)
  with ValuesNew(3) show ?case by simp
next
  case (NodesNew n1 n2 m b m')
  have "m_nodes_map m \<subseteq>\<^sub>m (m_nodes_map m)(n1 \<mapsto> n2)"
    using NodesNew(1) by (auto simp: map_le_def)
  moreover from NodesNew(7) have "(m_nodes_map m)(n1 \<mapsto> n2) \<subseteq>\<^sub>m m_nodes_map m'"
    by (simp del: fun_upd_apply)
  ultimately have "m_nodes_map m \<subseteq>\<^sub>m m_nodes_map m'" by (rule map_le_trans)
  with NodesNew(7) show ?case by simp
next
  case (OutputsNext n1 n2 i m m1 b m')
  then show ?case using map_le_trans[of "m_nodes_map m" "m_nodes_map m1" "m_nodes_map m'"]
      map_le_trans[of "m_values_map m" "m_values_map m1" "m_values_map m'"] by simp
next
  case (InputsNext n1 n2 i m m1 b m')
  then show ?case using map_le_trans[of "m_nodes_map m" "m_nodes_map m1" "m_nodes_map m'"]
      map_le_trans[of "m_values_map m" "m_values_map m1" "m_values_map m'"] by simp
qed simp_all

text \<open>
  Claim C6. Within one attempt the maps are write-once per key. When \<open>pv\<close> is mapped to
  \<open>tv\<close>, a later \<open>matchValues(pv, tv2)\<close> returns true exactly when \<open>tv2\<close> is \<open>tv\<close>, and changes
  nothing; likewise \<open>matchNodes\<close> for a mapped pattern node. And whatever call of the
  matcher runs from a state and returns, every entry of that state is still there after it:
  no entry is overwritten.
\<close>

theorem matcher_write_once:
  "(m_values_map m pv = Some tv \<longrightarrow> matchValues P G pv tv2 m = Some (tv2 = tv, m)) \<and>
   (m_nodes_map m pn = Some tn \<longrightarrow> matchNodes P G pn tn2 m = Some (tn2 = tn, m)) \<and>
   (\<forall>c b m'. matcher P G c m = Some (b, m') \<longrightarrow>
      (m_values_map m pv = Some tv \<longrightarrow> m_values_map m' pv = Some tv) \<and>
      (m_nodes_map m pn = Some tn \<longrightarrow> m_nodes_map m' pn = Some tn))"
proof (intro conjI impI allI)
  assume "m_values_map m pv = Some tv"
  then show "matchValues P G pv tv2 m = Some (tv2 = tv, m)"
    by (subst matchValues_unfold) auto
next
  assume "m_nodes_map m pn = Some tn"
  then show "matchNodes P G pn tn2 m = Some (tn2 = tn, m)"
    by (subst matchNodes_unfold) auto
next
  fix c b m'
  assume "matcher P G c m = Some (b, m')" "m_values_map m pv = Some tv"
  with matcher_grows[of P G c m b m'] show "m_values_map m' pv = Some tv"
    by (auto simp: map_le_def dom_def)
next
  fix c b m'
  assume "matcher P G c m = Some (b, m')" "m_nodes_map m pn = Some tn"
  with matcher_grows[of P G c m b m'] show "m_nodes_map m' pn = Some tn"
    by (auto simp: map_le_def dom_def)
qed

theorem matcher_write_once_witness:
  "m_values_map (\<lparr>m_nodes_map = [1 \<mapsto> 2], m_values_map = [2 \<mapsto> 2], m_anchor = 2\<rparr>) 2 = Some 2 \<and>
   m_nodes_map (\<lparr>m_nodes_map = [1 \<mapsto> 2], m_values_map = [2 \<mapsto> 2], m_anchor = 2\<rparr>) 1 = Some 2 \<and>
   matchValues add_pattern add_mul_graph 2 4
     \<lparr>m_nodes_map = [1 \<mapsto> 2], m_values_map = [2 \<mapsto> 2], m_anchor = 2\<rparr> =
     Some (False, \<lparr>m_nodes_map = [1 \<mapsto> 2], m_values_map = [2 \<mapsto> 2], m_anchor = 2\<rparr>) \<and>
   matchNodes add_pattern add_mul_graph 1 2
     \<lparr>m_nodes_map = [1 \<mapsto> 2], m_values_map = [2 \<mapsto> 2], m_anchor = 2\<rparr> =
     Some (True, \<lparr>m_nodes_map = [1 \<mapsto> 2], m_values_map = [2 \<mapsto> 2], m_anchor = 2\<rparr>) \<and>
   (\<exists>m'. for_inputs add_pattern add_mul_graph 1 2 0
     \<lparr>m_nodes_map = [1 \<mapsto> 2], m_values_map = [2 \<mapsto> 2], m_anchor = 2\<rparr> = Some (True, m') \<and>
     m_values_map m' 0 = Some 0 \<and> m_values_map m' 2 = Some 2 \<and> m_nodes_map m' 1 = Some 2)"
proof -
  let ?m = "\<lparr>m_nodes_map = [1 \<mapsto> 2], m_values_map = [2 \<mapsto> 2], m_anchor = 2\<rparr>"
  obtain m' where run: "for_inputs add_pattern add_mul_graph 1 2 0 ?m = Some (True, m')"
    and new: "m_values_map m' 0 = Some 0"
    by (simp add: run_simps add_pattern_def add_mul_graph_def)
  note inst = matcher_write_once [of ?m 2 2 add_pattern add_mul_graph 4 1 2 2]
  have pre: "m_values_map ?m 2 = Some 2" "m_nodes_map ?m 1 = Some 2" by simp_all
  from inst pre have "matchValues add_pattern add_mul_graph 2 4 ?m = Some (False, ?m)"
    and "matchNodes add_pattern add_mul_graph 1 2 ?m = Some (True, ?m)"
    by simp_all
  moreover from inst pre run have "m_values_map m' 2 = Some 2 \<and> m_nodes_map m' 1 = Some 2"
    unfolding for_inputs_def by blast
  ultimately show ?thesis using pre run new by blast
qed

section \<open>What a reported match holds\<close>

lemma reset_matcher:
  "m\<lparr>m_nodes_map := Map.empty, m_values_map := Map.empty, m_anchor := a\<rparr> =
   \<lparr>m_nodes_map = Map.empty, m_values_map = Map.empty, m_anchor = a\<rparr>"
  by (cases m) simp

text \<open>What an attempt that returns true has run.\<close>

lemma attempt_true:
  assumes "matchesSubgraphFromAnchorNode P G a m = Some (Inr (True, s))"
  shows "matcher P G
           (MatchNodes (node (valueAt P (hd (inputs (nodeAt P (return_node (blockAt P (block P))))))))
              a)
           \<lparr>m_nodes_map = Map.empty, m_values_map = Map.empty, m_anchor = a\<rparr> = Some (True, s)"
proof -
  have "m\<lparr>m_nodes_map := Map.empty, m_values_map := Map.empty, m_anchor := a\<rparr> =
        \<lparr>m_nodes_map = Map.empty, m_values_map = Map.empty, m_anchor = a\<rparr>"
    by (cases m) simp
  with assms show ?thesis
    by (auto simp: matchesSubgraphFromAnchorNode_def matchNodes_def Let_def split: if_splits)
qed

text \<open>Every match \<open>findPatternMatches\<close> returns was pushed after an attempt that returned
  true, with the maps of that attempt: a property of all such records holds of every
  element of the result.\<close>

lemma for_nodes_all:
  assumes step: "\<And>n m s. matchesSubgraphFromAnchorNode P G n m = Some (Inr (True, s)) \<Longrightarrow>
            R \<lparr>anchor = n, nodes_map = m_nodes_map s, values_map = m_values_map s\<rparr>"
    and "for_nodes P G ns (m, ms, stk) = Some (Inr (m', ms', stk'))"
    and "\<forall>x \<in> set ms. R x"
  shows "\<forall>x \<in> set ms'. R x"
  using assms(2,3)
proof (induction ns arbitrary: m ms stk)
  case Nil
  then show ?case by simp
next
  case (Cons n ns)
  from Cons.prems(1) obtain ok m1 where
    att: "matchesSubgraphFromAnchorNode P G n m = Some (Inr (ok, m1))"
    and rest: "for_nodes P G ns
            (m1,
             if ok then ms @ [\<lparr>anchor = n, nodes_map = m_nodes_map m1, values_map = m_values_map m1\<rparr>]
             else ms,
             foldl (\<lambda>stack subblock. subblock # stack) stk (blocks (nodeAt G n)))
          = Some (Inr (m', ms', stk'))"
    by (auto split: option.splits sum.splits)
  have "\<forall>x \<in> set (if ok then ms @ [\<lparr>anchor = n, nodes_map = m_nodes_map m1, values_map = m_values_map m1\<rparr>]
             else ms). R x"
    using Cons.prems(2) step att by auto
  from Cons.IH[OF rest this] show ?case .
qed

lemma while_blocks_all:
  assumes step: "\<And>n m s. matchesSubgraphFromAnchorNode P G n m = Some (Inr (True, s)) \<Longrightarrow>
            R \<lparr>anchor = n, nodes_map = m_nodes_map s, values_map = m_values_map s\<rparr>"
    and run: "while_blocks P G st = Some r"
  shows "\<forall>ms'. r = Inr ms' \<longrightarrow> (\<forall>x \<in> set (fst (snd st)). R x) \<longrightarrow> (\<forall>x \<in> set ms'. R x)"
proof -
  define T where "T = (\<lambda>(x :: (Graph \<times> Graph) \<times> SubgraphMatcher \<times> Match list \<times> block_ref list)
       (r :: error + Match list).
     case x of ((P', G'), st) \<Rightarrow> P' = P \<longrightarrow> G' = G \<longrightarrow>
     (\<forall>ms'. r = Inr ms' \<longrightarrow> (\<forall>x \<in> set (fst (snd st)). R x) \<longrightarrow> (\<forall>x \<in> set ms'. R x)))"
  have "T ((P, G), st) r"
  proof (rule while_blocks.raw_induct[OF _ run], goal_cases)
    case (1 f P' G' st r)
    have IH: "\<forall>x \<in> set ms''. R x"
      if "f P G st'' = Some (Inr ms'')" "\<forall>x \<in> set (fst (snd st'')). R x" for st'' ms''
      using 1(1)[OF that(1)] that(2) by (simp add: T_def)
    have "\<forall>x \<in> set ms'. R x"
      if eq: "P' = P" "G' = G" and r: "r = Inr ms'" and pre: "\<forall>x \<in> set (fst (snd st)). R x" for ms'
    proof -
      obtain m ms stk where st: "st = (m, ms, stk)" by (cases st)
      show ?thesis
      proof (cases stk)
        case Nil
        with 1(2) st r have "ms' = ms" by simp
        with pre st show ?thesis by simp
      next
        case (Cons b stk0)
        with 1(2)[unfolded eq] st r
        have *: "(case for_nodes P G (nodes (blockAt G b)) (m, ms, stk0) of
             None \<Rightarrow> None
           | Some (Inl e) \<Rightarrow> Some (Inl e)
           | Some (Inr st') \<Rightarrow> f P G st') = Some (Inr ms')" by simp
        obtain st1 where
          body: "for_nodes P G (nodes (blockAt G b)) (m, ms, stk0) = Some (Inr st1)"
          and rest: "f P G st1 = Some (Inr ms')"
        proof (cases "for_nodes P G (nodes (blockAt G b)) (m, ms, stk0)")
          case None
          with * show ?thesis by simp
        next
          case (Some y)
          with * that show ?thesis by (cases y) simp_all
        qed
        obtain m1 ms1 stk1 where st1: "st1 = (m1, ms1, stk1)" by (cases st1)
        from pre st have "\<forall>x \<in> set ms. R x" by simp
        from for_nodes_all[of P G R, OF step body[unfolded st1] this]
        have "\<forall>x \<in> set ms1. R x" .
        with IH[OF rest] st1 show ?thesis by simp
      qed
    qed
    then show ?case by (simp add: T_def)
  qed
  then show ?thesis by (simp add: T_def)
qed

lemma findPatternMatches_all:
  assumes step: "\<And>n m s. matchesSubgraphFromAnchorNode P G n m = Some (Inr (True, s)) \<Longrightarrow>
            R \<lparr>anchor = n, nodes_map = m_nodes_map s, values_map = m_values_map s\<rparr>"
    and run: "findPatternMatches P G = Some (Inr ms)"
  shows "\<forall>x \<in> set ms. R x"
proof -
  from run have "while_blocks P G (new_SubgraphMatcher, [], [block G]) = Some (Inr ms)"
    by (simp add: findPatternMatches_def split: if_splits)
  from while_blocks_all[of P G R, OF step this] show ?thesis by simp
qed

subsection \<open>Scope\<close>

lemma same_block_inv_values [simp]:
  "same_block_inv G (m\<lparr>m_values_map := vm\<rparr>) = same_block_inv G m"
  by (simp add: same_block_inv_def)






subsection \<open>Coverage\<close>

lemma no_param_keys_values [simp]:
  "no_param_keys P (m\<lparr>m_values_map := vm\<rparr>) = no_param_keys P m"
  by (simp add: no_param_keys_def)

lemma no_param_keys_insert:
  "no_param_keys P m \<Longrightarrow> kind (nodeAt P n1) \<noteq> prim_Param \<Longrightarrow>
   no_param_keys P (m\<lparr>m_nodes_map := (m_nodes_map m)(n1 \<mapsto> n2)\<rparr>)"
  by (auto simp: no_param_keys_def)

lemma matcher_no_param_keys:
  assumes "matcher P G c m = Some (b, m')"
  shows "no_param_keys P m \<longrightarrow> no_param_keys P m'"
  using assms
proof (induction rule: matcher_induct)
  case (NodesNew n1 n2 m b m')
  with no_param_keys_insert[of P m n1 n2] show ?case by blast
qed simp_all

lemma pending_new_node:
  assumes "n1 \<notin> dom (m_nodes_map m)"
  shows "pending P G (m\<lparr>m_nodes_map := (m_nodes_map m)(n1 \<mapsto> n2)\<rparr>) \<subseteq> pending P G m"
  using assms by (auto simp: pending_def)

lemma pending_new_value:
  "pending P G (m\<lparr>m_values_map := (m_values_map m)(v1 \<mapsto> v2)\<rparr>) \<subseteq> insert v1 (pending P G m)"
  by (auto simp: pending_def)

text \<open>A call that returns true leaves no new pending value, and \<open>matchNodes\<close> that returns
  true on a node that is not a \<open>Param\<close> node leaves that node mapped to the target node.\<close>

lemma matcher_pending:
  assumes "matcher P G c m = Some (b, m')"
  shows "(m_nodes_map m \<subseteq>\<^sub>m m_nodes_map m' \<and> m_values_map m \<subseteq>\<^sub>m m_values_map m') \<and>
         (b \<longrightarrow> pending P G m' \<subseteq> pending P G m \<and>
            (\<forall>n1 n2. c = MatchNodes n1 n2 \<longrightarrow> kind (nodeAt P n1) \<noteq> prim_Param \<longrightarrow>
               m_nodes_map m' n1 = Some n2))"
  using assms
proof (induction rule: matcher_induct)
  case (ValuesNew v1 v2 m b m')
  let ?m1 = "m\<lparr>m_values_map := (m_values_map m)(v1 \<mapsto> v2)\<rparr>"
  let ?n1 = "node (valueAt P v1)" and ?n2 = "node (valueAt G v2)"
  from ValuesNew(3) have gn: "m_nodes_map m \<subseteq>\<^sub>m m_nodes_map m'"
    and gv1: "(m_values_map m)(v1 \<mapsto> v2) \<subseteq>\<^sub>m m_values_map m'"
    by (simp_all del: fun_upd_apply)
  have "m_values_map m \<subseteq>\<^sub>m (m_values_map m)(v1 \<mapsto> v2)"
    using ValuesNew(1) by (auto simp: map_le_def)
  from map_le_trans[OF this gv1] have gv: "m_values_map m \<subseteq>\<^sub>m m_values_map m'" .
  from gv1 have kept: "m_values_map m' v1 = Some v2" by (auto simp: map_le_def)
  have "pending P G m' \<subseteq> pending P G m" if b
  proof
    fix pv assume pv: "pv \<in> pending P G m'"
    from ValuesNew(3) that have sub: "pending P G m' \<subseteq> pending P G ?m1"
      and mapped: "kind (nodeAt P ?n1) \<noteq> prim_Param \<longrightarrow> m_nodes_map m' ?n1 = Some ?n2"
      by simp_all
    from pv sub pending_new_value[of P G m v1 v2] have "pv = v1 \<or> pv \<in> pending P G m" by blast
    moreover have "pv \<noteq> v1"
    proof
      assume "pv = v1"
      with pv kept mapped show False by (auto simp: pending_def)
    qed
    ultimately show "pv \<in> pending P G m" by simp
  qed
  with gn gv show ?case by simp
next
  case (NodesNew n1 n2 m b m')
  let ?m1 = "m\<lparr>m_nodes_map := (m_nodes_map m)(n1 \<mapsto> n2)\<rparr>"
  from NodesNew(7) have gv: "m_values_map m \<subseteq>\<^sub>m m_values_map m'"
    and gn1: "(m_nodes_map m)(n1 \<mapsto> n2) \<subseteq>\<^sub>m m_nodes_map m'"
    by (simp_all del: fun_upd_apply)
  have "m_nodes_map m \<subseteq>\<^sub>m (m_nodes_map m)(n1 \<mapsto> n2)"
    using NodesNew(1) by (auto simp: map_le_def)
  from map_le_trans[OF this gn1] have gn: "m_nodes_map m \<subseteq>\<^sub>m m_nodes_map m'" .
  from gn1 have kept: "m_nodes_map m' n1 = Some n2" by (auto simp: map_le_def)
  have "pending P G m' \<subseteq> pending P G m" if b
  proof -
    from NodesNew(7) that have "pending P G m' \<subseteq> pending P G ?m1" by simp
    with pending_new_node[OF NodesNew(1), of P G n2] show ?thesis by (rule subset_trans[rotated])
  qed
  with gn gv kept show ?case by simp
next
  case (OutputsNext n1 n2 i m m1 b m')
  then show ?case using map_le_trans[of "m_nodes_map m" "m_nodes_map m1" "m_nodes_map m'"]
      map_le_trans[of "m_values_map m" "m_values_map m1" "m_values_map m'"] by auto
next
  case (InputsNext n1 n2 i m m1 b m')
  then show ?case using map_le_trans[of "m_nodes_map m" "m_nodes_map m1" "m_nodes_map m'"]
      map_le_trans[of "m_values_map m" "m_values_map m1" "m_values_map m'"] by auto
qed simp_all

text \<open>
  Claim C7, as the code has it. In every reported match, the node map has an entry for
  every pattern node that is not a \<open>Param\<close> node and was compared with a target node
  during the attempt, and the entry is that target node: the pattern's root is mapped to
  the anchor, and the defining node of every pattern value in the value map is mapped to
  the defining node of that value's target. No \<open>Param\<close> node is a key of the node map.
  Nothing is said about two pattern nodes mapped to one target node: the counterexample
  below is a reported match where that happens, and where a \<open>Param\<close> node was compared
  with a target node and has no entry.
\<close>

theorem findPatternMatches_nodes_map_cover:
  assumes "findPatternMatches P G = Some (Inr ms)" and "x \<in> set ms"
  shows "(kind (nodeAt P (pattern_root P)) \<noteq> prim_Param \<longrightarrow>
            nodes_map x (pattern_root P) = Some (anchor x)) \<and>
         (\<forall>pv tv. values_map x pv = Some tv \<longrightarrow>
            kind (nodeAt P (node (valueAt P pv))) \<noteq> prim_Param \<longrightarrow>
            nodes_map x (node (valueAt P pv)) = Some (node (valueAt G tv))) \<and>
         (\<forall>pn tn. nodes_map x pn = Some tn \<longrightarrow> kind (nodeAt P pn) \<noteq> prim_Param)"
proof -
  let ?R = "\<lambda>x. (kind (nodeAt P (pattern_root P)) \<noteq> prim_Param \<longrightarrow>
            nodes_map x (pattern_root P) = Some (anchor x)) \<and>
         (\<forall>pv tv. values_map x pv = Some tv \<longrightarrow>
            kind (nodeAt P (node (valueAt P pv))) \<noteq> prim_Param \<longrightarrow>
            nodes_map x (node (valueAt P pv)) = Some (node (valueAt G tv))) \<and>
         (\<forall>pn tn. nodes_map x pn = Some tn \<longrightarrow> kind (nodeAt P pn) \<noteq> prim_Param)"
  have step: "?R \<lparr>anchor = n, nodes_map = m_nodes_map s, values_map = m_values_map s\<rparr>"
    if "matchesSubgraphFromAnchorNode P G n m = Some (Inr (True, s))" for n m s
  proof -
    let ?m0 = "\<lparr>m_nodes_map = Map.empty, m_values_map = Map.empty, m_anchor = n\<rparr>"
    from attempt_true[OF that]
    have run: "matcher P G (MatchNodes (pattern_root P) n) ?m0 = Some (True, s)"
      by (simp add: pattern_root_def)
    have "pending P G ?m0 = {}" "no_param_keys P ?m0"
      by (simp_all add: pending_def no_param_keys_def)
    with matcher_pending[OF run] matcher_no_param_keys[OF run]
    have "pending P G s = {}" "no_param_keys P s"
      and "kind (nodeAt P (pattern_root P)) \<noteq> prim_Param \<longrightarrow>
             m_nodes_map s (pattern_root P) = Some n"
      by simp_all
    then show ?thesis by (auto simp: pending_def no_param_keys_def)
  qed
  have "\<forall>x \<in> set ms. ?R x"
  proof (rule findPatternMatches_all[OF _ assms(1)])
    fix n m s
    assume "matchesSubgraphFromAnchorNode P G n m = Some (Inr (True, s))"
    then show "?R \<lparr>anchor = n, nodes_map = m_nodes_map s, values_map = m_values_map s\<rparr>"
      by (rule step)
  qed
  with assms(2) show ?thesis by blast
qed

theorem findPatternMatches_nodes_map_cover_witness:
  "findPatternMatches alias_pattern square_graph = Some (Inr [square_match]) \<and>
   square_match \<in> set [square_match] \<and>
   kind (nodeAt alias_pattern (pattern_root alias_pattern)) \<noteq> prim_Param \<and>
   nodes_map square_match (pattern_root alias_pattern) = Some (anchor square_match) \<and>
   values_map square_match 3 = Some 1 \<and>
   nodes_map square_match (node (valueAt alias_pattern 3)) = Some (node (valueAt square_graph 1)) \<and>
   nodes_map square_match 1 = Some 1 \<and> kind (nodeAt alias_pattern 1) \<noteq> prim_Param"
proof -
  have run: "findPatternMatches alias_pattern square_graph = Some (Inr [square_match])"
    by (simp add: run_simps alias_pattern_def square_graph_def square_match_def)
  have mem: "square_match \<in> set [square_match]" by simp
  have pre: "kind (nodeAt alias_pattern (pattern_root alias_pattern)) \<noteq> prim_Param"
    "values_map square_match 3 = Some 1" "nodes_map square_match 1 = Some 1"
    "kind (nodeAt alias_pattern (node (valueAt alias_pattern 3))) \<noteq> prim_Param"
    by (simp_all add: pattern_root_def alias_pattern_def square_match_def store_def)
  from findPatternMatches_nodes_map_cover [OF run mem] pre run mem show ?thesis by blast
qed

text \<open>
  The claim C7 as stated fails on this match: the pattern nodes 1 and 2 are both mapped to
  the target node 1, so the node map is not injective on its domain; and the pattern value
  0, defined by the \<open>Param\<close> node 0, is mapped, so that node was compared with a target
  node, yet it is not a key of the node map.
\<close>

theorem nodes_map_bijective_counterexample:
  "findPatternMatches alias_pattern square_graph = Some (Inr [square_match]) \<and>
   nodes_map square_match 1 = Some 1 \<and> nodes_map square_match 2 = Some 1 \<and>
   \<not> inj_on (nodes_map square_match) (dom (nodes_map square_match)) \<and>
   values_map square_match 0 = Some 0 \<and>
   node (valueAt alias_pattern 0) = 0 \<and> kind (nodeAt alias_pattern 0) = prim_Param \<and>
   0 \<notin> dom (nodes_map square_match)"
proof -
  have run: "findPatternMatches alias_pattern square_graph = Some (Inr [square_match])"
    by (simp add: run_simps alias_pattern_def square_graph_def square_match_def)
  have maps: "nodes_map square_match 1 = Some 1" "nodes_map square_match 2 = Some 1"
    "values_map square_match 0 = Some 0" "0 \<notin> dom (nodes_map square_match)"
    by (simp_all add: square_match_def)
  have "\<not> inj_on (nodes_map square_match) (dom (nodes_map square_match))"
  proof
    assume "inj_on (nodes_map square_match) (dom (nodes_map square_match))"
    from inj_onD[OF this, of 1 2] maps show False by auto
  qed
  moreover have "node (valueAt alias_pattern 0) = 0" "kind (nodeAt alias_pattern 0) = prim_Param"
    by (simp_all add: alias_pattern_def store_def)
  ultimately show ?thesis using run maps by blast
qed

section \<open>Termination of an attempt\<close>

lemma unmapped_mono:
  assumes "finite NS" "finite VS" and "matcher P G c m = Some (b, m')"
  shows "unmapped NS VS m' \<le> unmapped NS VS m"
proof -
  from matcher_grows[OF assms(3)]
  have "dom (m_nodes_map m) \<subseteq> dom (m_nodes_map m')" "dom (m_values_map m) \<subseteq> dom (m_values_map m')"
    by (simp_all add: map_le_implies_dom_le)
  then have "card (VS - dom (m_values_map m')) \<le> card (VS - dom (m_values_map m))"
    and "card (NS - dom (m_nodes_map m')) \<le> card (NS - dom (m_nodes_map m))"
    using assms(1,2) by (auto intro!: card_mono)
  then show ?thesis by (simp add: unmapped_def)
qed

lemma unmapped_value:
  assumes "finite VS" "v1 \<in> VS" "v1 \<notin> dom (m_values_map m)"
  shows "unmapped NS VS (m\<lparr>m_values_map := (m_values_map m)(v1 \<mapsto> v2)\<rparr>) < unmapped NS VS m"
proof -
  have "VS - insert v1 (dom (m_values_map m)) \<subset> VS - dom (m_values_map m)"
    using assms(2,3) by blast
  then have "card (VS - insert v1 (dom (m_values_map m))) < card (VS - dom (m_values_map m))"
    using assms(1) by (intro psubset_card_mono) auto
  then show ?thesis by (simp add: unmapped_def)
qed

lemma unmapped_node:
  assumes "finite NS" "n1 \<in> NS" "n1 \<notin> dom (m_nodes_map m)"
  shows "unmapped NS VS (m\<lparr>m_nodes_map := (m_nodes_map m)(n1 \<mapsto> n2)\<rparr>) < unmapped NS VS m"
proof -
  have "NS - insert n1 (dom (m_nodes_map m)) \<subset> NS - dom (m_nodes_map m)"
    using assms(2,3) by blast
  then have "card (NS - insert n1 (dom (m_nodes_map m))) < card (NS - dom (m_nodes_map m))"
    using assms(1) by (intro psubset_card_mono) auto
  then show ?thesis by (simp add: unmapped_def)
qed

text \<open>By induction on the number of unmapped values and nodes: \<open>matchValues\<close> on a new value
  maps it before it calls \<open>matchNodes\<close>, \<open>matchNodes\<close> on a new node maps it before its loops
  run, and each loop runs as many times as the node has outputs or inputs.\<close>

lemma matcher_returns_aux:
  assumes closed: "closed_pattern P NS VS"
  shows "\<forall>m. unmapped NS VS m \<le> k \<longrightarrow>
           (\<forall>v1 v2. v1 \<in> VS \<longrightarrow> matchValues P G v1 v2 m \<noteq> None) \<and>
           (\<forall>n1 n2. n1 \<in> NS \<longrightarrow> matchNodes P G n1 n2 m \<noteq> None)"
proof (induction k rule: less_induct)
  case (less k)
  from closed have fin: "finite NS" "finite VS"
    and def_in: "\<And>v. v \<in> VS \<Longrightarrow> node (valueAt P v) \<in> NS"
    and ins_in: "\<And>n. n \<in> NS \<Longrightarrow> set (inputs (nodeAt P n)) \<subseteq> VS"
    and outs_in: "\<And>n. n \<in> NS \<Longrightarrow> set (outputs (nodeAt P n)) \<subseteq> VS"
    by (auto simp: closed_pattern_def)
  have MV: "matchValues P G v1 v2 m \<noteq> None" if "unmapped NS VS m \<le> k" "v1 \<in> VS" for v1 v2 m
  proof (cases "v1 \<in> dom (m_values_map m)")
    case True
    then show ?thesis by (subst matchValues_unfold) auto
  next
    case False
    let ?m1 = "m\<lparr>m_values_map := (m_values_map m)(v1 \<mapsto> v2)\<rparr>"
    from unmapped_value[OF fin(2) that(2) False, of NS v2] that(1)
    have "unmapped NS VS ?m1 < k" by simp
    from less.IH[OF this, rule_format, of ?m1] def_in[OF that(2)]
    have "matchNodes P G (node (valueAt P v1)) (node (valueAt G v2)) ?m1 \<noteq> None" by simp
    with False show ?thesis by (subst matchValues_unfold) auto
  qed
  have FI: "for_inputs P G n1 n2 i m \<noteq> None" if "unmapped NS VS m \<le> k" "n1 \<in> NS" for n1 n2 i m
    using that(1)
  proof (induction "length (inputs (nodeAt P n1)) - i" arbitrary: i m)
    case 0
    then show ?case by (subst for_inputs_unfold) auto
  next
    case (Suc d)
    then have lt: "i < length (inputs (nodeAt P n1))" by simp
    with ins_in[OF that(2)] have "inputs (nodeAt P n1) ! i \<in> VS" by (auto dest: nth_mem)
    from MV[OF Suc.prems this] obtain ok m1 where
      first: "matchValues P G (inputs (nodeAt P n1) ! i) (inputs (nodeAt G n2) ! i) m = Some (ok, m1)"
      by fastforce
    from unmapped_mono[OF fin first[unfolded matchValues_def]] Suc.prems
    have "unmapped NS VS m1 \<le> k" by simp
    moreover from Suc(2) have "d = length (inputs (nodeAt P n1)) - (i + 1)" by simp
    ultimately have "for_inputs P G n1 n2 (i + 1) m1 \<noteq> None" by (rule Suc(1)[rotated])
    with lt first show ?case by (subst for_inputs_unfold) auto
  qed
  have FO: "for_outputs P G n1 n2 i m \<noteq> None" if "unmapped NS VS m \<le> k" "n1 \<in> NS" for n1 n2 i m
    using that(1)
  proof (induction "length (outputs (nodeAt P n1)) - i" arbitrary: i m)
    case 0
    with FI[OF 0(2) that(2)] show ?case by (subst for_outputs_unfold) auto
  next
    case (Suc d)
    then have lt: "i < length (outputs (nodeAt P n1))" by simp
    with outs_in[OF that(2)] have "outputs (nodeAt P n1) ! i \<in> VS" by (auto dest: nth_mem)
    from MV[OF Suc.prems this] obtain ok m1 where
      first: "matchValues P G (outputs (nodeAt P n1) ! i) (outputs (nodeAt G n2) ! i) m = Some (ok, m1)"
      by fastforce
    from unmapped_mono[OF fin first[unfolded matchValues_def]] Suc.prems
    have "unmapped NS VS m1 \<le> k" by simp
    moreover from Suc(2) have "d = length (outputs (nodeAt P n1)) - (i + 1)" by simp
    ultimately have "for_outputs P G n1 n2 (i + 1) m1 \<noteq> None" by (rule Suc(1)[rotated])
    with lt first show ?case by (subst for_outputs_unfold) auto
  qed
  have MN: "matchNodes P G n1 n2 m \<noteq> None" if "unmapped NS VS m \<le> k" "n1 \<in> NS" for n1 n2 m
  proof (cases "n1 \<in> dom (m_nodes_map m)")
    case True
    then show ?thesis by (subst matchNodes_unfold) auto
  next
    case False
    let ?m1 = "m\<lparr>m_nodes_map := (m_nodes_map m)(n1 \<mapsto> n2)\<rparr>"
    from unmapped_node[OF fin(1) that(2) False, of VS n2] that(1)
    have "unmapped NS VS ?m1 \<le> k" by simp
    from FO[OF this that(2)] have "for_outputs P G n1 n2 0 ?m1 \<noteq> None" .
    with False show ?thesis by (subst matchNodes_unfold) auto
  qed
  from MV MN show ?case by blast
qed

lemma matchNodes_returns:
  assumes "closed_pattern P NS VS" and "n1 \<in> NS"
  shows "\<exists>b m'. matchNodes P G n1 n2 m = Some (b, m')"
  using matcher_returns_aux[OF assms(1), of "unmapped NS VS m" G] assms(2) by fastforce

lemma attempt_returns:
  assumes "closed_pattern P NS VS"
    and "node (valueAt P (hd (inputs (nodeAt P (return_node (blockAt P (block P))))))) \<in> NS"
  shows "\<exists>r. matchesSubgraphFromAnchorNode P G a m = Some r"
  using matchNodes_returns[OF assms]
  by (simp add: matchesSubgraphFromAnchorNode_def Let_def)

text \<open>
  Claim C8. For a finite pattern, \<open>matchesSubgraphFromAnchorNode\<close> returns, whatever
  the target graph and the anchor, also when values and nodes of the pattern or of the
  target refer to each other in a cycle: the pattern in the witness is such a cycle.
\<close>

theorem matchesSubgraphFromAnchorNode_terminates:
  assumes "closed_pattern P NS VS" and "pattern_root P \<in> NS"
  shows "\<exists>r. matchesSubgraphFromAnchorNode P G a m = Some r"
  using attempt_returns[OF assms(1) assms(2)[unfolded pattern_root_def]] .

theorem matchesSubgraphFromAnchorNode_terminates_witness:
  "closed_pattern cyclic_graph {0, 1} {0, 1} \<and> pattern_root cyclic_graph \<in> {0, 1} \<and>
   node (valueAt cyclic_graph (hd (inputs (nodeAt cyclic_graph 0)))) = 1 \<and>
   node (valueAt cyclic_graph (hd (inputs (nodeAt cyclic_graph 1)))) = 0 \<and>
   (\<exists>r. matchesSubgraphFromAnchorNode cyclic_graph cyclic_graph 0 new_SubgraphMatcher = Some r) \<and>
   matchesSubgraphFromAnchorNode cyclic_graph cyclic_graph 0 new_SubgraphMatcher =
     Some (Inr (True, \<lparr>m_nodes_map = [0 \<mapsto> 0, 1 \<mapsto> 1], m_values_map = [0 \<mapsto> 0, 1 \<mapsto> 1], m_anchor = 0\<rparr>))"
proof -
  have "closed_pattern cyclic_graph {0, 1} {0, 1}" "pattern_root cyclic_graph \<in> {0, 1}"
    by (simp_all add: closed_pattern_def pattern_root_def cyclic_graph_def store_def)
  from this matchesSubgraphFromAnchorNode_terminates [OF this, of cyclic_graph 0 new_SubgraphMatcher]
  show ?thesis by (simp add: run_simps cyclic_graph_def)
qed

section \<open>The search over the target graph\<close>

lemma attempt_fresh:
  "matchesSubgraphFromAnchorNode P G a m = matchesSubgraphFromAnchorNode P G a m'"
  unfolding matchesSubgraphFromAnchorNode_def reset_matcher ..

lemma push_all: "foldl (\<lambda>stack subblock. subblock # stack) stk bs = rev bs @ stk"
  by (induction bs arbitrary: stk) simp_all

text \<open>When every attempt returns without an assertion failure, the loop over the nodes of
  a block returns: it has appended a match for each node whose attempt returned true, in
  order, and pushed the blocks of each node.\<close>

lemma for_nodes_returns:
  assumes ok: "\<And>n m. \<exists>b s. matchesSubgraphFromAnchorNode P G n m = Some (Inr (b, s))"
  shows "\<exists>m' new. for_nodes P G ns (m, ms, stk) =
            Some (Inr (m', ms @ new, rev (concat (map (\<lambda>n. blocks (nodeAt G n)) ns)) @ stk)) \<and>
          map anchor new = filter (matches_at P G) ns"
proof (induction ns arbitrary: m ms stk)
  case Nil
  then show ?case by simp
next
  case (Cons n ns)
  from ok obtain b s where att: "matchesSubgraphFromAnchorNode P G n m = Some (Inr (b, s))"
    by blast
  then have at: "matches_at P G n = b"
    using attempt_fresh[of P G n new_SubgraphMatcher m] by (simp add: matches_at_def)
  let ?x = "\<lparr>anchor = n, nodes_map = m_nodes_map s, values_map = m_values_map s\<rparr>"
  let ?ms1 = "if b then ms @ [?x] else ms"
  from Cons.IH[of s ?ms1 "rev (blocks (nodeAt G n)) @ stk"] obtain m' new where
    rest: "for_nodes P G ns (s, ?ms1, rev (blocks (nodeAt G n)) @ stk) =
             Some (Inr (m', ?ms1 @ new,
               rev (concat (map (\<lambda>n. blocks (nodeAt G n)) ns)) @ rev (blocks (nodeAt G n)) @ stk))"
    and anchors: "map anchor new = filter (matches_at P G) ns"
    by blast
  have "for_nodes P G (n # ns) (m, ms, stk) =
          Some (Inr (m', ms @ ((if b then [?x] else []) @ new),
            rev (concat (map (\<lambda>n. blocks (nodeAt G n)) (n # ns))) @ stk))"
    using att rest by (simp add: push_all)
  moreover have "map anchor ((if b then [?x] else []) @ new) = filter (matches_at P G) (n # ns)"
    using anchors at by simp
  ultimately show ?case by blast
qed

lemma forest_nodes_simps [simp]:
  "forest_nodes [] = []"
  "forest_nodes (t # ts) = tree_nodes t @ forest_nodes ts"
  "forest_nodes (ts @ us) = forest_nodes ts @ forest_nodes us"
  by (simp_all add: forest_nodes_def)

lemma forest_weight_simps [simp]:
  "forest_weight [] = 0"
  "forest_weight (t # ts) = tree_weight t + forest_weight ts"
  "forest_weight (ts @ us) = forest_weight ts + forest_weight us"
  "forest_weight (rev ts) = forest_weight ts"
  by (simp_all add: forest_weight_def rev_map[symmetric])

lemma mset_forest_nodes_rev: "mset (forest_nodes (rev ts)) = mset (forest_nodes ts)"
  by (induction ts) simp_all

lemma tree_nodes_forest:
  "tree_nodes (BlockTree b es) = map fst es @ forest_nodes (concat (map snd es))"
  by (induction es) (simp_all add: forest_nodes_def)

lemma tree_weight_forest:
  "tree_weight (BlockTree b es) = Suc (forest_weight (concat (map snd es)))"
  by (induction es) (simp_all add: forest_weight_def)

lemma is_block_tree_children:
  assumes "is_block_tree G (BlockTree b es)"
  shows "nodes (blockAt G b) = map fst es"
    and "concat (map (\<lambda>n. blocks (nodeAt G n)) (map fst es)) = map tree_block (concat (map snd es))"
    and "\<forall>t \<in> set (concat (map snd es)). is_block_tree G t"
proof -
  from assms show "nodes (blockAt G b) = map fst es" by simp
  from assms have each: "\<forall>e \<in> set es. blocks (nodeAt G (fst e)) = map tree_block (snd e)"
    by simp
  then show "concat (map (\<lambda>n. blocks (nodeAt G n)) (map fst es)) = map tree_block (concat (map snd es))"
    by (induction es) simp_all
  from assms show "\<forall>t \<in> set (concat (map snd es)). is_block_tree G t" by auto
qed

text \<open>The loop over the stack of blocks returns when the blocks on the stack nest as finite
  trees, having tried every node of these trees once.\<close>

lemma while_blocks_returns:
  assumes ok: "\<And>n m. \<exists>b s. matchesSubgraphFromAnchorNode P G n m = Some (Inr (b, s))"
    and trees: "\<forall>t \<in> set ts. is_block_tree G t"
  shows "\<exists>new order. while_blocks P G (m, ms, map tree_block ts) = Some (Inr (ms @ new)) \<and>
           map anchor new = filter (matches_at P G) order \<and>
           mset order = mset (forest_nodes ts)"
  using trees
proof (induction "forest_weight ts" arbitrary: ts m ms rule: less_induct)
  case less
  show ?case
  proof (cases ts)
    case Nil
    then show ?thesis by (simp add: while_blocks_unfold)
  next
    case (Cons t rest)
    obtain b es where t: "t = BlockTree b es" by (cases t)
    from less.prems Cons t have bt: "is_block_tree G (BlockTree b es)"
      and rest_trees: "\<forall>t \<in> set rest. is_block_tree G t" by simp_all
    note shape = is_block_tree_children[OF bt]
    let ?ts' = "rev (concat (map snd es)) @ rest"
    from for_nodes_returns[OF ok, of "map fst es" m ms "map tree_block rest"]
    obtain m1 new1 where
      body: "for_nodes P G (map fst es) (m, ms, map tree_block rest) =
               Some (Inr (m1, ms @ new1, map tree_block ?ts'))"
      and anchors1: "map anchor new1 = filter (matches_at P G) (map fst es)"
      unfolding shape(2) by (auto simp: rev_map)
    have "forest_weight ?ts' < forest_weight ts"
      using Cons t by (simp add: tree_weight_forest del: tree_weight.simps)
    moreover have "\<forall>t \<in> set ?ts'. is_block_tree G t"
      using shape(3) rest_trees by auto
    ultimately obtain new2 order2 where
      loop: "while_blocks P G (m1, ms @ new1, map tree_block ?ts') = Some (Inr ((ms @ new1) @ new2))"
      and anchors2: "map anchor new2 = filter (matches_at P G) order2"
      and order2: "mset order2 = mset (forest_nodes ?ts')"
      using less.hyps[of ?ts' m1 "ms @ new1"] by blast
    have "while_blocks P G (m, ms, map tree_block ts) = Some (Inr (ms @ (new1 @ new2)))"
      using Cons t body loop shape(1) by (simp add: while_blocks_unfold)
    moreover have "map anchor (new1 @ new2) = filter (matches_at P G) (map fst es @ order2)"
      using anchors1 anchors2 by simp
    moreover have "mset (map fst es @ order2) = mset (forest_nodes ts)"
      using order2 Cons t by (simp add: tree_nodes_forest mset_forest_nodes_rev del: tree_nodes.simps)
    ultimately show ?thesis by blast
  qed
qed

lemma findPatternMatches_returns:
  assumes valid: "patternGraphIsValid P"
    and ok: "\<And>n m. \<exists>b s. matchesSubgraphFromAnchorNode P G n m = Some (Inr (b, s))"
    and tree: "is_block_tree G t" "tree_block t = block G"
  shows "\<exists>ms order. findPatternMatches P G = Some (Inr ms) \<and>
           map anchor ms = filter (matches_at P G) order \<and>
           mset order = mset (tree_nodes t)"
  using while_blocks_returns[where ts = "[t]" and m = new_SubgraphMatcher and ms = "[]", OF ok]
    valid tree
  by (simp add: findPatternMatches_def)

lemma attempt_returns_ok:
  assumes "patternGraphIsValid P" and "closed_pattern P NS VS" and "pattern_root P \<in> NS"
  shows "\<exists>b s. matchesSubgraphFromAnchorNode P G a m = Some (Inr (b, s))"
proof -
  from assms(1) have one: "length (inputs (nodeAt P (return_node (blockAt P (block P))))) = 1"
    by (simp add: patternGraphIsValid_def Let_def split: if_splits)
  from matchNodes_returns[OF assms(2) assms(3)[unfolded pattern_root_def]] one
  show ?thesis by (fastforce simp: matchesSubgraphFromAnchorNode_def Let_def)
qed

text \<open>
  Claim C9. \<open>findPatternMatches\<close> fails its assertion when \<open>patternGraphIsValid\<close> is false,
  whatever the target graph, before any attempt. For a valid finite pattern and a target
  graph whose blocks nest as a finite tree it returns a sequence of matches: an attempt
  that fails returns false and nothing else. In the witness only one of the four anchors
  matches.
\<close>

theorem findPatternMatches_assert_or_returns:
  "(\<not> patternGraphIsValid P \<longrightarrow> findPatternMatches P G = Some (Inl AssertionFailure)) \<and>
   (patternGraphIsValid P \<longrightarrow> closed_pattern P NS VS \<longrightarrow> pattern_root P \<in> NS \<longrightarrow>
      is_block_tree G t \<longrightarrow> tree_block t = block G \<longrightarrow>
      (\<exists>ms. findPatternMatches P G = Some (Inr ms)))"
proof (intro conjI impI)
  assume "\<not> patternGraphIsValid P"
  then show "findPatternMatches P G = Some (Inl AssertionFailure)"
    by (simp add: findPatternMatches_def)
next
  assume valid: "patternGraphIsValid P" and fin: "closed_pattern P NS VS" "pattern_root P \<in> NS"
    and tree: "is_block_tree G t" "tree_block t = block G"
  from findPatternMatches_returns[OF valid attempt_returns_ok[OF valid fin] tree]
  show "\<exists>ms. findPatternMatches P G = Some (Inr ms)" by blast
qed

theorem findPatternMatches_assert_or_returns_witness:
  "\<not> patternGraphIsValid nested_graph \<and>
   findPatternMatches nested_graph add_mul_graph = Some (Inl AssertionFailure) \<and>
   patternGraphIsValid add_pattern \<and> closed_pattern add_pattern {0, 1} {0, 1, 2} \<and>
   pattern_root add_pattern \<in> {0, 1} \<and>
   is_block_tree nested_graph nested_tree \<and> tree_block nested_tree = block nested_graph \<and>
   (\<exists>ms. findPatternMatches add_pattern nested_graph = Some (Inr ms)) \<and>
   matchesSubgraphFromAnchorNode add_pattern nested_graph 1 new_SubgraphMatcher =
     Some (Inr (False, attempt_at 1))"
proof -
  have pre: "\<not> patternGraphIsValid nested_graph" "patternGraphIsValid add_pattern"
    "closed_pattern add_pattern {0, 1} {0, 1, 2}" "pattern_root add_pattern \<in> {0, 1}"
    "is_block_tree nested_graph nested_tree" "tree_block nested_tree = block nested_graph"
    by (simp_all add: patternGraphIsValid_def closed_pattern_def pattern_root_def
        add_pattern_def nested_graph_def nested_tree_def store_def)
  have fail: "matchesSubgraphFromAnchorNode add_pattern nested_graph 1 new_SubgraphMatcher =
     Some (Inr (False, attempt_at 1))"
    by (simp add: run_simps add_pattern_def nested_graph_def)
  from findPatternMatches_assert_or_returns [of nested_graph add_mul_graph]
    findPatternMatches_assert_or_returns [of add_pattern nested_graph "{0, 1}" "{0, 1, 2}" nested_tree]
    pre fail
  show ?thesis by blast
qed

text \<open>
  Claim C1. When the pattern is valid and the node feeding its exit node is a \<open>Param\<close>
  node, \<open>findPatternMatches\<close> returns, for a target graph whose blocks nest as the finite
  tree \<open>t\<close>, one match for each node of \<open>t\<close>, anchored at that node: the anchors of the
  result and the nodes of the tree, nested ones included, are the same multiset. The nodes
  of a graph are those in the node sequences of its blocks.
\<close>

theorem findPatternMatches_param_pattern:
  assumes "patternGraphIsValid P" and "kind (nodeAt P (pattern_root P)) = prim_Param"
    and "is_block_tree G t" and "tree_block t = block G"
  shows "\<exists>ms. findPatternMatches P G = Some (Inr ms) \<and> mset (map anchor ms) = mset (tree_nodes t)"
proof -
  from assms(1) have one: "length (inputs (nodeAt P (return_node (blockAt P (block P))))) = 1"
    by (simp add: patternGraphIsValid_def Let_def split: if_splits)
  have att: "matchesSubgraphFromAnchorNode P G n m =
      Some (Inr (True, \<lparr>m_nodes_map = Map.empty, m_values_map = Map.empty, m_anchor = n\<rparr>))" for n m
    unfolding matchesSubgraphFromAnchorNode_def reset_matcher
    using one assms(2) by (simp add: matchNodes_unfold pattern_root_def)
  then have "matches_at P G n" for n by (simp add: matches_at_def)
  with findPatternMatches_returns[OF assms(1) _ assms(3,4)] att show ?thesis by fastforce
qed

theorem findPatternMatches_param_pattern_witness:
  "patternGraphIsValid param_pattern \<and>
   kind (nodeAt param_pattern (pattern_root param_pattern)) = prim_Param \<and>
   is_block_tree nested_graph nested_tree \<and> tree_block nested_tree = block nested_graph \<and>
   tree_nodes nested_tree = [1, 2, 4, 6] \<and>
   (\<exists>ms. findPatternMatches param_pattern nested_graph = Some (Inr ms) \<and>
      mset (map anchor ms) = mset (tree_nodes nested_tree)) \<and>
   findPatternMatches param_pattern nested_graph =
     Some (Inr [\<lparr>anchor = 1, nodes_map = Map.empty, values_map = Map.empty\<rparr>,
                \<lparr>anchor = 2, nodes_map = Map.empty, values_map = Map.empty\<rparr>,
                \<lparr>anchor = 6, nodes_map = Map.empty, values_map = Map.empty\<rparr>,
                \<lparr>anchor = 4, nodes_map = Map.empty, values_map = Map.empty\<rparr>])"
proof -
  have pre: "patternGraphIsValid param_pattern"
    "kind (nodeAt param_pattern (pattern_root param_pattern)) = prim_Param"
    "is_block_tree nested_graph nested_tree" "tree_block nested_tree = block nested_graph"
    by (simp_all add: patternGraphIsValid_def pattern_root_def
        param_pattern_def nested_graph_def nested_tree_def store_def)
  have nodes: "tree_nodes nested_tree = [1, 2, 4, 6]" by (simp add: nested_tree_def)
  have run: "findPatternMatches param_pattern nested_graph =
     Some (Inr [\<lparr>anchor = 1, nodes_map = Map.empty, values_map = Map.empty\<rparr>,
                \<lparr>anchor = 2, nodes_map = Map.empty, values_map = Map.empty\<rparr>,
                \<lparr>anchor = 6, nodes_map = Map.empty, values_map = Map.empty\<rparr>,
                \<lparr>anchor = 4, nodes_map = Map.empty, values_map = Map.empty\<rparr>])"
    by (simp add: run_simps param_pattern_def nested_graph_def)
  from findPatternMatches_param_pattern [OF pre] pre nodes run show ?thesis by blast
qed

end
